theory Spec2Isabelle
  imports
    Complex_Main
    "HOL-Library.Multiset"
    "HOL-Library.Char_ord"
    "HOL-Library.List_Lexorder"
    "HOL-Library.Product_Lexorder"
begin

section \<open>Texts and character classes\<close>

text \<open>
  A Python \<open>str\<close> is modelled as a \<open>string\<close>: a list of 8-bit characters, read as the
  code points 0 to 255. On that range the character classes below are the ones Python
  uses: \<open>\d\<close> of a \<open>str\<close> pattern and \<open>int()\<close> accept exactly \<open>0\<close>..\<open>9\<close>, and \<open>\s\<close> and
  \<open>str.strip()\<close> use the same whitespace set (9..13, 28..32, 133 and 160).
  Python's integers are unbounded and so are the ones here (\<open>int\<close>).
\<close>

definition is_digit :: "char \<Rightarrow> bool" where
  "is_digit c = (let n = (of_char c :: nat) in 48 \<le> n \<and> n \<le> 57)"

definition is_space :: "char \<Rightarrow> bool" where
  "is_space c =
     (let n = (of_char c :: nat)
      in (9 \<le> n \<and> n \<le> 13) \<or> (28 \<le> n \<and> n \<le> 32) \<or> n = 133 \<or> n = 160)"

definition digit_val :: "char \<Rightarrow> int" where
  "digit_val c = int (of_char c) - 48"

text \<open>\<open>int(s)\<close> on a non-empty string of decimal digits.\<close>

definition int_of_digits :: "string \<Rightarrow> int" where
  "int_of_digits ds = foldl (\<lambda>acc c. 10 * acc + digit_val c) 0 ds"

text \<open>\<open>s.strip()\<close>: whitespace removed at both ends.\<close>

definition lstrip :: "string \<Rightarrow> string" where
  "lstrip s = dropWhile is_space s"

definition rstrip :: "string \<Rightarrow> string" where
  "rstrip s = rev (dropWhile is_space (rev s))"

definition strip :: "string \<Rightarrow> string" where
  "strip s = rstrip (lstrip s)"

text \<open>\<open>s.split("\n")\<close>: the pieces between line feeds; the empty string gives one empty piece.\<close>

fun split_nl :: "string \<Rightarrow> string list" where
  "split_nl [] = [[]]"
| "split_nl (c # cs) =
     (if c = CHR 0x0A then [] # split_nl cs
      else (case split_nl cs of l # ls \<Rightarrow> (c # l) # ls | [] \<Rightarrow> [[c]]))"

text \<open>\<open>s[a:b]\<close> for \<open>0 \<le> a \<le> b\<close>.\<close>

definition slice :: "string \<Rightarrow> nat \<Rightarrow> nat \<Rightarrow> string" where
  "slice s a b = take (b - a) (drop a s)"

section \<open>Regular expressions, matched by backtracking\<close>

text \<open>
  The two patterns of \<open>extract_medicine_candidates\<close> are sequences of single-character
  classes under the quantifiers \<open>x\<close>, \<open>x+\<close>, \<open>x*\<close> (greedy) and \<open>x*?\<close> (lazy), the anchor
  \<open>^\<close> and capture groups. \<open>rmatch\<close> is the backtracking matcher of \<open>re\<close> on such a
  sequence: a greedy quantifier tries the longest repetition first, a lazy one the
  shortest, and the first alternative under which the rest of the pattern matches wins.
  It carries the position \<open>n\<close> in the subject and the positions \<open>ms\<close> at which group
  parentheses were passed (latest first), and returns those positions in pattern order.
\<close>

datatype cclass = Digit | Space | Dot | Lit char

datatype quant = One | Plus | Star | LazyStar

datatype node = Bol | Atom cclass quant | GroupOpen | GroupClose

type_synonym regex = "node list"

fun cmatch :: "cclass \<Rightarrow> char \<Rightarrow> bool" where
  "cmatch Digit c = is_digit c"
| "cmatch Space c = is_space c"
| "cmatch Dot c = (c \<noteq> CHR 0x0A)"
| "cmatch (Lit l) c = (c = l)"

fun rmatch :: "regex \<Rightarrow> string \<Rightarrow> nat \<Rightarrow> nat list \<Rightarrow> nat list option" where
  "rmatch [] s n ms = Some (rev ms)"
| "rmatch (Bol # p) s n ms = (if n = 0 then rmatch p s n ms else None)"
| "rmatch (GroupOpen # p) s n ms = rmatch p s n (n # ms)"
| "rmatch (GroupClose # p) s n ms = rmatch p s n (n # ms)"
| "rmatch (Atom c One # p) [] n ms = None"
| "rmatch (Atom c One # p) (x # xs) n ms =
     (if cmatch c x then rmatch p xs (Suc n) ms else None)"
| "rmatch (Atom c Plus # p) [] n ms = None"
| "rmatch (Atom c Plus # p) (x # xs) n ms =
     (if cmatch c x then rmatch (Atom c Star # p) xs (Suc n) ms else None)"
| "rmatch (Atom c Star # p) [] n ms = rmatch p [] n ms"
| "rmatch (Atom c Star # p) (x # xs) n ms =
     (if cmatch c x
      then (case rmatch (Atom c Star # p) xs (Suc n) ms of
              Some r \<Rightarrow> Some r
            | None \<Rightarrow> rmatch p (x # xs) n ms)
      else rmatch p (x # xs) n ms)"
| "rmatch (Atom c LazyStar # p) [] n ms = rmatch p [] n ms"
| "rmatch (Atom c LazyStar # p) (x # xs) n ms =
     (case rmatch p (x # xs) n ms of
        Some r \<Rightarrow> Some r
      | None \<Rightarrow> (if cmatch c x then rmatch (Atom c LazyStar # p) xs (Suc n) ms else None))"

text \<open>\<open>re.search\<close>: the first start position, from the left, at which the pattern matches.\<close>

fun re_search_from :: "regex \<Rightarrow> string \<Rightarrow> nat \<Rightarrow> nat list option" where
  "re_search_from p [] n = rmatch p [] n []"
| "re_search_from p (x # xs) n =
     (case rmatch p (x # xs) n [] of
        Some r \<Rightarrow> Some r
      | None \<Rightarrow> re_search_from p xs (Suc n))"

definition re_search :: "regex \<Rightarrow> string \<Rightarrow> nat list option" where
  "re_search p s = re_search_from p s 0"

text \<open>
  \<open>match.group(k)\<close> for \<open>k \<ge> 1\<close>: the text between the \<open>k\<close>-th pair of parentheses. Both
  patterns below have the groups that the source reads, so the last case is never taken.
\<close>

definition match_group :: "string \<Rightarrow> nat list \<Rightarrow> nat \<Rightarrow> string" where
  "match_group s ms k = (case drop (2 * (k - 1)) ms of a # b # _ \<Rightarrow> slice s a b | _ \<Rightarrow> [])"

text \<open>\<open>r"^\d+\.\s+(.*?):\s*(\d+)%"\<close>\<close>

definition line_pattern :: regex where
  "line_pattern =
     [Bol, Atom Digit Plus, Atom (Lit CHR ''.'') One, Atom Space Plus,
      GroupOpen, Atom Dot LazyStar, GroupClose,
      Atom (Lit CHR '':'') One, Atom Space Star,
      GroupOpen, Atom Digit Plus, GroupClose, Atom (Lit CHR ''%'') One]"

text \<open>\<open>r"^(\d+)\."\<close>\<close>

definition position_pattern :: regex where
  "position_pattern = [Bol, GroupOpen, Atom Digit Plus, GroupClose, Atom (Lit CHR ''.'') One]"

section \<open>Candidate extraction\<close>

record candidate =
  name :: string
  confidence :: int
  position :: int

text \<open>The body of the inner loop of \<open>extract_medicine_candidates\<close>: what one line appends.\<close>

definition extract_line :: "string \<Rightarrow> candidate list" where
  "extract_line line =
     (case re_search line_pattern line of
        None \<Rightarrow> []
      | Some m \<Rightarrow>
          (let medicine_name = strip (match_group line m 1);
               confidence = int_of_digits (match_group line m 2);
               position =
                 (case re_search position_pattern line of
                    Some pm \<Rightarrow> int_of_digits (match_group line pm 1)
                  | None \<Rightarrow> 0)
           in [\<lparr>name = medicine_name, confidence = confidence, position = position\<rparr>]))"

definition extract_medicine_candidates :: "string list \<Rightarrow> candidate list" where
  "extract_medicine_candidates interpretations =
     foldl (\<lambda>medicine_candidates interpretation.
              foldl (\<lambda>acc line. acc @ extract_line line) medicine_candidates
                (split_nl (strip interpretation)))
       [] interpretations"

section \<open>The line format\<close>

text \<open>
  The format \<open>"<int>. <text>: <int>%"\<close> in words: a line has the format with leading integer
  \<open>n\<close>, text \<open>between\<close> the period and the colon, and percentage \<open>pct\<close> when it is \<open>n\<close>, a
  period, \<open>between\<close>, a colon and a rest, where \<open>n\<close> is a non-empty string of digits, \<open>between\<close>
  begins with a whitespace character, and the rest is optional whitespace, the non-empty
  string of digits \<open>pct\<close> and a percent sign, followed by anything. \<open>line_format\<close> follows
  the wording of the specification and not the regular expression of the code, with
  which it is compared below.
\<close>

definition percentage_after :: "string \<Rightarrow> string \<Rightarrow> bool" where
  "percentage_after t pct =
     (pct \<noteq> [] \<and> list_all is_digit pct \<and>
      (\<exists>ws rest. list_all is_space ws \<and> t = ws @ pct @ CHR ''%'' # rest))"

definition line_format :: "string \<Rightarrow> string \<Rightarrow> string \<Rightarrow> string \<Rightarrow> bool" where
  "line_format line n between pct =
     (n \<noteq> [] \<and> list_all is_digit n \<and>
      between \<noteq> [] \<and> is_space (hd between) \<and>
      (\<exists>t. line = n @ CHR ''.'' # between @ CHR '':'' # t \<and> percentage_after t pct))"

text \<open>
  A scanner for the same format, reading a line once from the left: the digits, the
  period, then the first colon that is followed by optional whitespace, digits and a
  percent sign. It is not part of the program; the properties of extraction are proved
  by showing that the backtracking matcher on \<open>line_pattern\<close> and the format above both
  agree with it.
\<close>

definition spaces_before :: "string \<Rightarrow> nat" where
  "spaces_before s = length (takeWhile is_space s)"

definition scan_tail :: "string \<Rightarrow> string option" where
  "scan_tail t =
     (let t1 = dropWhile is_space t; pct = takeWhile is_digit t1
      in case dropWhile is_digit t1 of
           c # _ \<Rightarrow> if pct \<noteq> [] \<and> c = CHR ''%'' then Some pct else None
         | [] \<Rightarrow> None)"

fun scan_name :: "string \<Rightarrow> (string \<times> string) option" where
  "scan_name [] = None"
| "scan_name (x # xs) =
     (case (if x = CHR '':'' then scan_tail xs else None) of
        Some pct \<Rightarrow> Some ([], pct)
      | None \<Rightarrow> map_option (\<lambda>(b, pct). (x # b, pct)) (scan_name xs))"

definition scan_line :: "string \<Rightarrow> (string \<times> string \<times> string) option" where
  "scan_line line =
     (let n = takeWhile is_digit line
      in case dropWhile is_digit line of
           c # r \<Rightarrow>
             if n \<noteq> [] \<and> c = CHR ''.'' \<and> (case r of w # _ \<Rightarrow> is_space w | [] \<Rightarrow> False)
             then map_option (\<lambda>(b, pct). (n, b, pct)) (scan_name r)
             else None
         | [] \<Rightarrow> None)"

section \<open>Grouping\<close>

text \<open>\<open>str(i)\<close> of an integer, as an f-string renders it.\<close>

fun str_nat :: "nat \<Rightarrow> string" where
  "str_nat n =
     (if n < 10 then [char_of (48 + n)]
      else str_nat (n div 10) @ [char_of (48 + n mod 10)])"

declare str_nat.simps [simp del]

definition str_int :: "int \<Rightarrow> string" where
  "str_int i = (if i < 0 then CHR ''-'' # str_nat (nat (- i)) else str_nat (nat i))"

text \<open>\<open>sep.join(xs)\<close>\<close>

fun join :: "string \<Rightarrow> string list \<Rightarrow> string" where
  "join sep [] = []"
| "join sep [x] = x"
| "join sep (x # y # ys) = x @ sep @ join sep (y # ys)"

text \<open>
  \<open>defaultdict(list)\<close> as an association list in insertion order with distinct keys:
  \<open>d[k].append(v)\<close> and \<open>d[k]\<close>.
\<close>

type_synonym position_groups = "(int \<times> candidate list) list"

definition dd_append :: "position_groups \<Rightarrow> int \<Rightarrow> candidate \<Rightarrow> position_groups" where
  "dd_append d k v =
     (case map_of d k of
        None \<Rightarrow> d @ [(k, [v])]
      | Some vs \<Rightarrow> map (\<lambda>(k', vs'). if k' = k then (k', vs' @ [v]) else (k', vs')) d)"

definition dd_get :: "position_groups \<Rightarrow> int \<Rightarrow> candidate list" where
  "dd_get d k = (case map_of d k of None \<Rightarrow> [] | Some vs \<Rightarrow> vs)"

definition medicine_text :: "candidate \<Rightarrow> string" where
  "medicine_text med = name med @ '': '' @ str_int (confidence med) @ ''%''"

definition group_text_of :: "int \<Rightarrow> candidate list \<Rightarrow> string" where
  "group_text_of pos grp =
     (''Medicine '' @ str_int pos @ '': ['') @ join '', '' (map medicine_text grp) @ '']''"

text \<open>
  \<open>list.sort(key=...)\<close> is a stable sort, as \<open>sort_key\<close> is; \<open>sorted(d.keys())\<close> sorts the
  distinct keys.
\<close>

definition group_similar_medicines ::
  "candidate list \<Rightarrow> (int \<times> string \<times> candidate list) list" where
  "group_similar_medicines medicine_candidates =
     (let sorted_candidates = sort_key position medicine_candidates;
          position_groups =
            foldl (\<lambda>d candidate. dd_append d (position candidate) candidate) [] sorted_candidates
      in map (\<lambda>position.
                (let group = dd_get position_groups position
                 in (position, group_text_of position group, group)))
           (sort (map fst position_groups)))"

section \<open>Requests to the generative model\<close>

text \<open>
  A request is the prompt, the optional image, the sampling temperature and whether the
  search tool is enabled. The prompts are the source's fixed templates, named here by
  their template and the values substituted into it. A call either returns the response
  text (\<open>Inr\<close>) or raises an exception, of which \<open>str(e)\<close> is kept (\<open>Inl\<close>).
  Temperatures are modelled as exact rationals: the rounding of binary floating point
  in \<open>0.7 + i * 0.2\<close> is not modelled.
\<close>

datatype image = Image string string

datatype prompt =
    InitialPrompt
  | VerificationPrompt int string
  | FinalPrompt string
  | NamePrompt string

record request =
  contents :: prompt
  image :: "image option"
  temperature :: rat
  search :: bool

datatype exn = ValueError | ModelError string

text \<open>What the page shows: one constructor per message of the source.\<close>

datatype ui =
    Warning_upload
  | Running_passes
  | Completed_interpretation rat
  | Error_processing rat string
  | Passes_completed
  | Pass_interpretation nat string
  | Extracted nat
  | Error_no_medicines
  | Final_heading
  | Code string
  | Total_time
  | Grouped nat
  | Group_line string
  | Verifying
  | Verified int
  | Error_verifying int string
  | Verification_completed
  | Generating_final
  | Final_completed

text \<open>
  The effects and the result of one stage: the requests it submitted, in submission
  order, the messages it showed, and the value it returned or the exception it raised.
\<close>

record 'a run =
  issued :: "request list"
  shown :: "ui list"
  returned :: "exn + 'a"

section \<open>Interpretation fan-out\<close>

text \<open>
  \<open>call k r\<close> is the outcome of the \<open>k\<close>-th submitted future, which sends request \<open>r\<close>.
  \<open>arrival\<close> is the order in which \<open>as_completed\<close> yields the futures, as indices into
  the submitted ones: a permutation of \<open>[0..<N]\<close>. Creating a \<open>ThreadPoolExecutor\<close> with
  \<open>max_workers \<le> 0\<close> raises \<open>ValueError\<close>.
\<close>

definition temperatures :: "int \<Rightarrow> rat list" where
  "temperatures num_passes = map (\<lambda>i. 7 / 10 + of_nat i * (2 / 10)) [0..<nat num_passes]"

definition generate_interpretation :: "rat \<Rightarrow> image \<Rightarrow> request" where
  "generate_interpretation temp img =
     \<lparr>contents = InitialPrompt, image = Some img, temperature = temp, search = False\<rparr>"

definition collect_interpretation ::
  "(nat \<Rightarrow> request \<Rightarrow> string + string) \<Rightarrow> image \<Rightarrow> rat list \<Rightarrow>
   ui list \<times> (rat \<times> string) list \<Rightarrow> nat \<Rightarrow> ui list \<times> (rat \<times> string) list" where
  "collect_interpretation call img temps acc k =
     (let temp = temps ! k
      in case call k (generate_interpretation temp img) of
           Inr result \<Rightarrow>
             (fst acc @ [Completed_interpretation temp], snd acc @ [(temp, result)])
         | Inl e \<Rightarrow> (fst acc @ [Error_processing temp e], snd acc))"

definition run_parallel_interpretations ::
  "(nat \<Rightarrow> request \<Rightarrow> string + string) \<Rightarrow> nat list \<Rightarrow> image \<Rightarrow> int \<Rightarrow> string list run" where
  "run_parallel_interpretations call arrival img num_passes =
     (let temps = temperatures num_passes
      in if num_passes \<le> 0 then \<lparr>issued = [], shown = [], returned = Inl ValueError\<rparr>
         else (let acc = foldl (collect_interpretation call img temps) ([], []) arrival
               in \<lparr>issued = map (\<lambda>temp. generate_interpretation temp img) temps,
                   shown = fst acc,
                   returned = Inr (map snd (sort (snd acc)))\<rparr>))"

text \<open>
  The first asynchronous variant (\<open>v1_async_interpretation.py\<close>): its
  \<open>generate_interpretation\<close> takes the temperature and sends the fixed value \<open>0.2\<close>;
  \<open>v1_issued\<close> is the list of requests its \<open>run_parallel_interpretations\<close> creates.
\<close>

definition v1_generate_interpretation :: "image \<Rightarrow> rat \<Rightarrow> request" where
  "v1_generate_interpretation img temp =
     \<lparr>contents = InitialPrompt, image = Some img, temperature = 2 / 10, search = False\<rparr>"

definition v1_issued :: "image \<Rightarrow> int \<Rightarrow> request list" where
  "v1_issued img num_passes = map (v1_generate_interpretation img) (temperatures num_passes)"

section \<open>Verification fan-out\<close>

definition verification_request :: "int \<times> prompt \<Rightarrow> request" where
  "verification_request p =
     \<lparr>contents = snd p, image = None, temperature = 2 / 10, search = True\<rparr>"

definition collect_verification ::
  "(nat \<Rightarrow> request \<Rightarrow> string + string) \<Rightarrow> (int \<times> prompt) list \<Rightarrow>
   ui list \<times> (int \<times> string) list \<Rightarrow> nat \<Rightarrow> ui list \<times> (int \<times> string) list" where
  "collect_verification call verification_prompts acc k =
     (let prompt = verification_prompts ! k
      in case call k (verification_request prompt) of
           Inr result \<Rightarrow> (fst acc @ [Verified (fst prompt)], snd acc @ [(fst prompt, result)])
         | Inl e \<Rightarrow>
             (fst acc @ [Error_verifying (fst prompt) e],
              snd acc @ [(fst prompt, ''Error: '' @ e)]))"

definition verify_medicine_groups ::
  "(nat \<Rightarrow> request \<Rightarrow> string + string) \<Rightarrow> nat list \<Rightarrow>
   (int \<times> string \<times> candidate list) list \<Rightarrow> (int \<times> string) list run" where
  "verify_medicine_groups call arrival medicine_groups =
     (let verification_prompts =
            map (\<lambda>(position, group_text, group). (position, VerificationPrompt position group_text))
              medicine_groups
      in if min 6 (length verification_prompts) \<le> 0
         then \<lparr>issued = [], shown = [], returned = Inl ValueError\<rparr>
         else (let acc = foldl (collect_verification call verification_prompts) ([], []) arrival
               in \<lparr>issued = map verification_request verification_prompts,
                   shown = fst acc,
                   returned = Inr (sort_key fst (snd acc))\<rparr>))"

text \<open>
  \<open>verify_medicine_name\<close> of the second variant (\<open>v2_adding_google_search_on_v1.py\<close>):
  one call inside \<open>try\<close>, the exception turned into the returned text.
\<close>

definition verify_medicine_name :: "(request \<Rightarrow> string + string) \<Rightarrow> string \<Rightarrow> string" where
  "verify_medicine_name call medicine_name =
     (case call \<lparr>contents = NamePrompt medicine_name, image = None,
                  temperature = 1 / 10, search = True\<rparr> of
        Inr text \<Rightarrow> text
      | Inl e \<Rightarrow> ''Error verifying medicine: '' @ e)"

section \<open>Final synthesis and the pipeline\<close>








section \<open>Properties of grouping\<close>

subsection \<open>The dictionary of position groups\<close>

lemma map_fst_dd_append:
  "map fst (dd_append d k v) = (if k \<in> set (map fst d) then map fst d else map fst d @ [k])"
proof (cases "map_of d k")
  case None
  moreover from None have "k \<notin> set (map fst d)" by (simp add: map_of_eq_None_iff)
  ultimately show ?thesis by (simp add: dd_append_def)
next
  case (Some vs)
  then have "k \<in> set (map fst d)" by (metis map_of_eq_None_iff option.distinct(1) set_map)
  moreover have "map fst (map (\<lambda>(k', vs'). if k' = k then (k', vs' @ [v]) else (k', vs')) d) = map fst d"
    by (induction d) auto
  ultimately show ?thesis using Some by (simp add: dd_append_def)
qed

lemma map_of_dd_append:
  "map_of (dd_append d k v) k' = (if k' = k then Some (dd_get d k @ [v]) else map_of d k')"
proof (cases "map_of d k")
  case None
  then show ?thesis by (auto simp add: dd_append_def dd_get_def map_add_def split: option.splits)
next
  case (Some vs)
  have "map_of (map (\<lambda>(k', vs'). if k' = k then (k', vs' @ [v]) else (k', vs')) d) k'
        = (if k' = k then map_option (\<lambda>vs'. vs' @ [v]) (map_of d k) else map_of d k')"
    by (induction d) auto
  then show ?thesis using Some by (simp add: dd_append_def dd_get_def)
qed

lemma dd_get_dd_append:
  "dd_get (dd_append d k v) k' = (if k' = k then dd_get d k @ [v] else dd_get d k')"
  by (simp add: dd_get_def map_of_dd_append)

lemma keys_dd_append: "fst ` set (dd_append d k v) = insert k (fst ` set d)"
proof -
  have "set (map fst (dd_append d k v)) = insert k (set (map fst d))"
    unfolding map_fst_dd_append by auto
  then show ?thesis by simp
qed

lemma keys_fold_dd_append:
  "fst ` set (foldl (\<lambda>d c. dd_append d (position c) c) d xs) = fst ` set d \<union> position ` set xs"
  by (induction xs arbitrary: d) (simp_all add: keys_dd_append)

lemma distinct_fold_dd_append:
  "distinct (map fst d) \<Longrightarrow> distinct (map fst (foldl (\<lambda>d c. dd_append d (position c) c) d xs))"
  by (induction xs arbitrary: d) (auto simp: map_fst_dd_append)

lemma dd_get_fold_dd_append:
  "dd_get (foldl (\<lambda>d c. dd_append d (position c) c) d xs) k
     = dd_get d k @ filter (\<lambda>c. position c = k) xs"
  by (induction xs arbitrary: d) (auto simp: dd_get_dd_append)

lemma sort_distinct_keys:
  "distinct ks \<Longrightarrow> sort ks = sorted_list_of_set (set ks)"
  by (simp add: sorted_list_of_set_sort_remdups distinct_remdups_id)

lemma group_similar_medicines_eq:
  "group_similar_medicines cs =
     map (\<lambda>p. (p, group_text_of p (filter (\<lambda>c. position c = p) cs), filter (\<lambda>c. position c = p) cs))
       (sorted_list_of_set (position ` set cs))"
proof -
  let ?d = "foldl (\<lambda>d c. dd_append d (position c) c) [] (sort_key position cs)"
  have keys: "sort (map fst ?d) = sorted_list_of_set (position ` set cs)"
    using distinct_fold_dd_append [of "[]" "sort_key position cs"]
      keys_fold_dd_append [of "[]" "sort_key position cs"]
    by (simp add: sort_distinct_keys)
  have get: "dd_get ?d p = filter (\<lambda>c. position c = p) cs" for p
  proof -
    have "dd_get [] p = []" by (simp add: dd_get_def)
    then show ?thesis by (simp add: dd_get_fold_dd_append sort_key_stable)
  qed
  show ?thesis
    unfolding group_similar_medicines_def Let_def keys get ..
qed

subsection \<open>Groups in key order are the stable sort\<close>

lemma mset_concat_filter_keys:
  "distinct ks \<Longrightarrow>
   mset (concat (map (\<lambda>p. filter (\<lambda>c. f c = p) xs) ks)) = mset (filter (\<lambda>c. f c \<in> set ks) xs)"
proof (induction ks)
  case Nil
  then show ?case by simp
next
  case (Cons k ks)
  have "mset (filter (\<lambda>c. f c = k) xs) + mset (filter (\<lambda>c. f c \<in> set ks) xs)
        = mset (filter (\<lambda>c. f c \<in> set (k # ks)) xs)"
    using Cons.prems by (induction xs) auto
  with Cons show ?case by simp
qed

lemma filter_concat_filter_keys:
  "distinct ks \<Longrightarrow>
   filter (\<lambda>c. f c = q) (concat (map (\<lambda>p. filter (\<lambda>c. f c = p) xs) ks))
     = (if q \<in> set ks then filter (\<lambda>c. f c = q) xs else [])"
proof (induction ks)
  case Nil
  then show ?case by simp
next
  case (Cons k ks)
  have a: "filter (\<lambda>c. f c = q) (filter (\<lambda>c. f c = k) xs)
        = (if q = k then filter (\<lambda>c. f c = q) xs else [])"
    by (induction xs) auto
  from Cons show ?case by (auto simp del: filter_filter simp: a)
qed

lemma sorted_concat_filter_keys:
  "sorted ks \<Longrightarrow> sorted (map f (concat (map (\<lambda>p. filter (\<lambda>c. f c = p) xs) ks)))"
proof (induction ks)
  case Nil
  then show ?case by simp
next
  case (Cons k ks)
  have "map f (filter (\<lambda>c. f c = k) xs) = replicate (length (filter (\<lambda>c. f c = k) xs)) k"
    by (induction xs) auto
  then have "sorted (map f (filter (\<lambda>c. f c = k) xs))" by simp
  with Cons show ?case by (auto simp: sorted_append)
qed

lemma concat_filter_keys_sort_key:
  assumes "sorted ks" and "distinct ks" and "f ` set xs \<subseteq> set ks"
  shows "concat (map (\<lambda>p. filter (\<lambda>c. f c = p) xs) ks) = sort_key f xs"
proof (rule properties_for_sort_key [symmetric])
  let ?ys = "concat (map (\<lambda>p. filter (\<lambda>c. f c = p) xs) ks)"
  have "filter (\<lambda>c. f c \<in> set ks) xs = xs"
    using assms(3) by (auto simp: filter_id_conv)
  then show "mset ?ys = mset xs"
    using mset_concat_filter_keys [OF assms(2), of f xs] by simp
  show "sorted (map f ?ys)" by (rule sorted_concat_filter_keys [OF assms(1)])
  fix k assume "k \<in> set ?ys"
  then have "k \<in> set xs" by auto
  then have "f k \<in> set ks" using assms(3) by auto
  then have "filter (\<lambda>c. f c = f k) ?ys = filter (\<lambda>c. f c = f k) xs"
    using filter_concat_filter_keys [OF assms(2), of f "f k" xs] by simp
  moreover have "(\<lambda>x. f k = f x) = (\<lambda>c. f c = f k)" by auto
  ultimately show "filter (\<lambda>x. f k = f x) ?ys = filter (\<lambda>x. f k = f x) xs" by simp
qed


text \<open>
  C2. For every list of candidates, grouping returns one group for each distinct position
  of the input and no other, in ascending order of position; the text of the group of
  position \<open>p\<close> is \<open>Medicine p: [name1: conf1%, name2: conf2%, ...]\<close>, and the group lists
  the candidates of that position in the order in which the input has them.
\<close>

theorem group_similar_medicines_groups:
  "group_similar_medicines cs =
     map (\<lambda>p. (p,
                ''Medicine '' @ str_int p @ '': [''
                @ join '', '' (map (\<lambda>m. name m @ '': '' @ str_int (confidence m) @ ''%'')
                                (filter (\<lambda>c. position c = p) cs))
                @ '']'',
                filter (\<lambda>c. position c = p) cs))
       (sorted_list_of_set (position ` set cs))
   \<and> set (map fst (group_similar_medicines cs)) = position ` set cs
   \<and> distinct (map fst (group_similar_medicines cs))
   \<and> sorted (map fst (group_similar_medicines cs))"
proof -
  have texts: "group_text_of p g =
      ''Medicine '' @ str_int p @ '': [''
      @ join '', '' (map (\<lambda>m. name m @ '': '' @ str_int (confidence m) @ ''%'') g) @ '']''"
    for p g
  proof -
    have "medicine_text = (\<lambda>m. name m @ '': '' @ str_int (confidence m) @ ''%'')"
      by (rule ext) (simp add: medicine_text_def)
    then show ?thesis by (simp add: group_text_of_def)
  qed
  have keys: "map fst (group_similar_medicines cs) = sorted_list_of_set (position ` set cs)"
    by (simp add: group_similar_medicines_eq comp_def)
  have "group_similar_medicines cs =
     map (\<lambda>p. (p,
                ''Medicine '' @ str_int p @ '': [''
                @ join '', '' (map (\<lambda>m. name m @ '': '' @ str_int (confidence m) @ ''%'')
                                (filter (\<lambda>c. position c = p) cs))
                @ '']'',
                filter (\<lambda>c. position c = p) cs))
       (sorted_list_of_set (position ` set cs))"
    unfolding group_similar_medicines_eq texts ..
  moreover have "set (map fst (group_similar_medicines cs)) = position ` set cs"
    unfolding keys by simp
  moreover have "distinct (map fst (group_similar_medicines cs))"
    unfolding keys by simp
  moreover have "sorted (map fst (group_similar_medicines cs))"
    unfolding keys by simp
  ultimately show ?thesis by blast
qed

text \<open>
  C10. For every list of candidates, the candidate lists of the returned groups, put one
  after the other in the order of the groups, are the input stably sorted by position:
  sorted by position, the same candidates with the same multiplicities, and for every
  position the candidates of that position in their input order.
\<close>

theorem group_similar_medicines_partition:
  "concat (map (\<lambda>g. snd (snd g)) (group_similar_medicines cs)) = sort_key position cs
   \<and> sorted (map position (concat (map (\<lambda>g. snd (snd g)) (group_similar_medicines cs))))
   \<and> mset (concat (map (\<lambda>g. snd (snd g)) (group_similar_medicines cs))) = mset cs
   \<and> (\<forall>k. filter (\<lambda>c. position c = k) (concat (map (\<lambda>g. snd (snd g)) (group_similar_medicines cs)))
            = filter (\<lambda>c. position c = k) cs)"
proof -
  have "concat (map (\<lambda>g. snd (snd g)) (group_similar_medicines cs))
        = concat (map (\<lambda>p. filter (\<lambda>c. position c = p) cs) (sorted_list_of_set (position ` set cs)))"
    by (simp add: group_similar_medicines_eq comp_def)
  also have "\<dots> = sort_key position cs"
    by (rule concat_filter_keys_sort_key) simp_all
  finally have eq: "concat (map (\<lambda>g. snd (snd g)) (group_similar_medicines cs)) = sort_key position cs" .
  show ?thesis
    unfolding eq by (simp add: sort_key_stable)
qed

text \<open>
  C9. The three interpretations \<open>1. Napa: 80%\<newline>2. Seclo: 70%\<close>, \<open>1. Napa: 90%\<close> and
  \<open>1. Nap: 60%\<newline>2. Seclo: 85%\<close> give five candidates, and grouping them gives two
  groups: position 1 with Napa 80, Napa 90, Nap 60 and position 2 with Seclo 70, Seclo 85.
\<close>

theorem example_napa_seclo:
  "extract_medicine_candidates
     [''1. Napa: 80%\<newline>2. Seclo: 70%'', ''1. Napa: 90%'', ''1. Nap: 60%\<newline>2. Seclo: 85%'']
   = [\<lparr>name = ''Napa'', confidence = 80, position = 1\<rparr>,
      \<lparr>name = ''Seclo'', confidence = 70, position = 2\<rparr>,
      \<lparr>name = ''Napa'', confidence = 90, position = 1\<rparr>,
      \<lparr>name = ''Nap'', confidence = 60, position = 1\<rparr>,
      \<lparr>name = ''Seclo'', confidence = 85, position = 2\<rparr>]
   \<and> length (extract_medicine_candidates
        [''1. Napa: 80%\<newline>2. Seclo: 70%'', ''1. Napa: 90%'', ''1. Nap: 60%\<newline>2. Seclo: 85%'']) = 5
   \<and> group_similar_medicines (extract_medicine_candidates
        [''1. Napa: 80%\<newline>2. Seclo: 70%'', ''1. Napa: 90%'', ''1. Nap: 60%\<newline>2. Seclo: 85%''])
   = [(1, ''Medicine 1: [Napa: 80%, Napa: 90%, Nap: 60%]'',
       [\<lparr>name = ''Napa'', confidence = 80, position = 1\<rparr>,
        \<lparr>name = ''Napa'', confidence = 90, position = 1\<rparr>,
        \<lparr>name = ''Nap'', confidence = 60, position = 1\<rparr>]),
      (2, ''Medicine 2: [Seclo: 70%, Seclo: 85%]'',
       [\<lparr>name = ''Seclo'', confidence = 70, position = 2\<rparr>,
        \<lparr>name = ''Seclo'', confidence = 85, position = 2\<rparr>])]"
  by code_simp

section \<open>Properties of the interpretation fan-out\<close>

lemma mset_concat_map_cong:
  "mset xs = mset ys \<Longrightarrow> mset (concat (map g xs)) = mset (concat (map g ys))"
proof -
  assume a: "mset xs = mset ys"
  have "mset (concat (map g zs)) = sum_mset (image_mset (\<lambda>z. mset (g z)) (mset zs))" for zs
    by (induction zs) simp_all
  with a show ?thesis by simp
qed

lemma nth_temperatures:
  "k < nat n \<Longrightarrow> temperatures n ! k = 7 / 10 + of_nat k * (2 / 10)"
  by (simp add: temperatures_def)

lemma collect_interpretation_foldl:
  "foldl (collect_interpretation call img temps) acc arrival =
     (fst acc @ map (\<lambda>k. case call k (generate_interpretation (temps ! k) img) of
                           Inr r \<Rightarrow> Completed_interpretation (temps ! k)
                         | Inl e \<Rightarrow> Error_processing (temps ! k) e) arrival,
      snd acc @ concat (map (\<lambda>k. case call k (generate_interpretation (temps ! k) img) of
                                   Inr r \<Rightarrow> [(temps ! k, r)]
                                 | Inl e \<Rightarrow> []) arrival))"
  by (induction arrival arbitrary: acc)
     (auto simp: collect_interpretation_def Let_def split: sum.splits)

lemma sorted_pairs_if_fst_increasing:
  fixes xs :: "(rat \<times> string) list"
  shows "sorted_wrt (\<lambda>a b. fst a < fst b) xs \<Longrightarrow> sorted xs"
  by (rule sorted_wrt_mono_rel [of xs "\<lambda>a b. fst a < fst b"]) (auto simp: less_eq_prod_def)

lemma sorted_wrt_concat_map_upt:
  fixes t :: "nat \<Rightarrow> rat"
  assumes "\<And>i x. x \<in> set (g i) \<Longrightarrow> fst x = t i" and "\<And>i. length (g i) \<le> 1"
    and "\<And>i j. i < j \<Longrightarrow> t i < t j"
  shows "sorted_wrt (\<lambda>a b. fst a < fst b) (concat (map g [0..<n]))"
proof (induction n)
  case 0
  then show ?case by simp
next
  case (Suc n)
  have one: "sorted_wrt (\<lambda>a b. fst a < fst b) (g n)"
    using assms(2) [of n] by (cases "g n") (auto simp: Suc_le_eq)
  show ?case using Suc one assms(1) assms(3) by (auto simp: sorted_wrt_append)
qed

lemma interpretations_returned:
  assumes "0 < N" and "mset arrival = mset [0..<nat N]"
  shows "returned (run_parallel_interpretations call arrival img N) =
         Inr (concat (map (\<lambda>k. case call k (generate_interpretation (7 / 10 + of_nat k * (2 / 10)) img) of
                                  Inr r \<Rightarrow> [r] | Inl e \<Rightarrow> [])
                        [0..<nat N]))"
proof -
  let ?T = "\<lambda>k::nat. (7 / 10 + of_nat k * (2 / 10) :: rat)"
  let ?G = "\<lambda>k. case call k (generate_interpretation (temperatures N ! k) img) of
                   Inr r \<Rightarrow> [(temperatures N ! k, r)] | Inl e \<Rightarrow> []"
  let ?G' = "\<lambda>k. case call k (generate_interpretation (?T k) img) of
                   Inr r \<Rightarrow> [(?T k, r)] | Inl e \<Rightarrow> []"
  have in_range: "k < nat N" if "k \<in> set arrival" for k
    using that assms(2) by (metis atLeastLessThan_iff set_mset_mset set_upt)
  have "map ?G arrival = map ?G' arrival"
    by (rule map_cong) (auto simp: nth_temperatures in_range split: sum.splits)
  then have "mset (concat (map ?G arrival)) = mset (concat (map ?G' arrival))" by (simp only:)
  also have "\<dots> = mset (concat (map ?G' [0..<nat N]))"
    by (rule mset_concat_map_cong) (rule assms(2))
  finally have m: "mset (concat (map ?G' [0..<nat N])) = mset (concat (map ?G arrival))" by simp
  have "sorted_wrt (\<lambda>a b. fst a < fst b) (concat (map ?G' [0..<nat N]))"
    by (rule sorted_wrt_concat_map_upt [where t = ?T]) (auto split: sum.splits)
  then have "sorted (concat (map ?G' [0..<nat N]))"
    by (rule sorted_pairs_if_fst_increasing)
  with m have "sort (concat (map ?G arrival)) = concat (map ?G' [0..<nat N])"
    by (rule properties_for_sort)
  moreover have "map snd (concat (map ?G' [0..<nat N])) =
      concat (map (\<lambda>k. case call k (generate_interpretation (?T k) img) of
                          Inr r \<Rightarrow> [r] | Inl e \<Rightarrow> []) [0..<nat N])"
    (is "map snd (concat (map ?G' ?ks)) = concat (map ?H ?ks)")
  proof -
    have "map snd (concat (map ?G' ks)) = concat (map ?H ks)" for ks
      by (induction ks) (auto split: sum.splits)
    then show ?thesis .
  qed
  ultimately show ?thesis
    using assms(1)
    by (simp add: run_parallel_interpretations_def Let_def collect_interpretation_foldl)
qed

lemma interpretations_issued:
  "issued (run_parallel_interpretations call arrival img N) =
     map (\<lambda>k. generate_interpretation (7 / 10 + of_nat k * (2 / 10)) img) [0..<nat N]"
  by (simp add: run_parallel_interpretations_def Let_def temperatures_def)

text \<open>
  C8. In a run of the interpretation fan-out with \<open>N \<ge> 1\<close> passes in which the futures
  complete in any order, the returned list holds exactly the texts of the calls that
  returned, in ascending order of temperature; a call that raised contributes no entry
  and does not prevent the return. Each of the \<open>N\<close> requests is submitted once: nothing
  is sent again after a failure.
\<close>

theorem interpretation_failures_dropped:
  assumes "0 < N" and "mset arrival = mset [0..<nat N]"
  shows "returned (run_parallel_interpretations call arrival img N) =
           Inr (concat (map (\<lambda>k. case call k (generate_interpretation (7 / 10 + of_nat k * (2 / 10)) img) of
                                    Inr r \<Rightarrow> [r] | Inl e \<Rightarrow> [])
                          [0..<nat N]))
         \<and> issued (run_parallel_interpretations call arrival img N) =
           map (\<lambda>k. generate_interpretation (7 / 10 + of_nat k * (2 / 10)) img) [0..<nat N]"
  using interpretations_returned [OF assms] interpretations_issued by blast

theorem interpretation_failures_dropped_witness:
  "0 < (3::int) \<and> mset [2, 0, 1] = mset [0..<nat 3]
   \<and> returned (run_parallel_interpretations
        (\<lambda>k r. if k = 1 then Inl ''timeout'' else Inr (if k = 0 then ''first'' else ''third''))
        [2, 0, 1] (Image [] ''image/jpeg'') 3) = Inr [''first'', ''third'']
   \<and> map temperature (issued (run_parallel_interpretations
        (\<lambda>k r. if k = 1 then Inl ''timeout'' else Inr (if k = 0 then ''first'' else ''third''))
        [2, 0, 1] (Image [] ''image/jpeg'') 3)) = [7 / 10, 9 / 10, 11 / 10]"
proof -
  have h1: "0 < (3::int)" by simp
  have u: "[0..<nat 3] = [0, 1, 2]" by code_simp
  have u': "[0..<3] = [0, 1, 2::nat]" by code_simp
  have h2: "mset [2, 0, 1] = mset [0..<nat 3]" unfolding u by simp
  show ?thesis
    using interpretation_failures_dropped [OF h1 h2, of
        "\<lambda>k r. if k = 1 then Inl ''timeout'' else Inr (if k = 0 then ''first'' else ''third'')"
        "Image [] ''image/jpeg''"] h1 h2
    by (simp add: u' generate_interpretation_def)
qed

lemma temperatures_increasing: "sorted_wrt (<) (temperatures N)"
  unfolding temperatures_def sorted_wrt_map
  by (rule sorted_wrt_mono_rel [of _ "(<)"]) (simp_all add: strict_sorted_iff)

text \<open>
  C5. Two runs of the interpretation fan-out with the same call outcomes that differ only
  in the order in which the futures complete return the same value. With \<open>N \<ge> 1\<close> passes
  that value is the list of the texts of the calls that returned, listed by the index \<open>k\<close>
  of their request, whose temperature \<open>0.7 + 0.2 k\<close> is strictly increasing in \<open>k\<close>: the
  output is in ascending order of temperature, whatever the order of completion. With
  \<open>N \<le> 0\<close> both runs raise \<open>ValueError\<close>.
\<close>

theorem interpretations_independent_of_arrival:
  assumes "mset arrival1 = mset [0..<nat N]" and "mset arrival2 = mset [0..<nat N]"
  shows "returned (run_parallel_interpretations call arrival1 img N) =
         returned (run_parallel_interpretations call arrival2 img N)
         \<and> (0 < N \<longrightarrow>
              returned (run_parallel_interpretations call arrival1 img N) =
              Inr (concat (map (\<lambda>k. case call k (generate_interpretation (temperatures N ! k) img) of
                                       Inr r \<Rightarrow> [r] | Inl e \<Rightarrow> [])
                             [0..<nat N])))
         \<and> (N \<le> 0 \<longrightarrow>
              returned (run_parallel_interpretations call arrival1 img N) = Inl ValueError)
         \<and> temperatures N = map (\<lambda>k. 7 / 10 + of_nat k * (2 / 10)) [0..<nat N]
         \<and> sorted_wrt (<) (temperatures N)"
proof -
  have eq: "returned (run_parallel_interpretations call arrival1 img N) =
            returned (run_parallel_interpretations call arrival2 img N)"
  proof (cases "0 < N")
    case True
    show ?thesis
      unfolding interpretations_returned [OF True assms(1)] interpretations_returned [OF True assms(2)] ..
  next
    case False
    then show ?thesis by (simp add: run_parallel_interpretations_def)
  qed
  have ex: "returned (run_parallel_interpretations call arrival1 img N) =
              Inr (concat (map (\<lambda>k. case call k (generate_interpretation (temperatures N ! k) img) of
                                       Inr r \<Rightarrow> [r] | Inl e \<Rightarrow> [])
                             [0..<nat N]))" if "0 < N"
  proof -
    have "map (\<lambda>k. case call k (generate_interpretation (temperatures N ! k) img) of
                                       Inr r \<Rightarrow> [r] | Inl e \<Rightarrow> []) [0..<nat N]
        = map (\<lambda>k. case call k (generate_interpretation (7 / 10 + of_nat k * (2 / 10)) img) of
                                       Inr r \<Rightarrow> [r] | Inl e \<Rightarrow> []) [0..<nat N]"
      by (rule map_cong) (simp_all add: nth_temperatures)
    then show ?thesis
      unfolding interpretations_returned [OF that assms(1)] by (simp only:)
  qed
  have err: "returned (run_parallel_interpretations call arrival1 img N) = Inl ValueError" if "N \<le> 0"
    using that by (simp add: run_parallel_interpretations_def)
  have t: "temperatures N = map (\<lambda>k. 7 / 10 + of_nat k * (2 / 10)) [0..<nat N]"
    by (simp add: temperatures_def)
  from eq ex err t temperatures_increasing show ?thesis by blast
qed

theorem interpretations_independent_of_arrival_witness:
  "mset [0, 1, 2] = mset [0..<nat 3] \<and> mset [2, 0, 1] = mset [0..<nat 3]
   \<and> returned (run_parallel_interpretations
        (\<lambda>k r. if k = 1 then Inl ''timeout'' else Inr (if k = 0 then ''first'' else ''third''))
        [0, 1, 2] (Image [] ''image/jpeg'') 3)
     = returned (run_parallel_interpretations
        (\<lambda>k r. if k = 1 then Inl ''timeout'' else Inr (if k = 0 then ''first'' else ''third''))
        [2, 0, 1] (Image [] ''image/jpeg'') 3)
   \<and> returned (run_parallel_interpretations
        (\<lambda>k r. if k = 1 then Inl ''timeout'' else Inr (if k = 0 then ''first'' else ''third''))
        [0, 1, 2] (Image [] ''image/jpeg'') 3) = Inr [''first'', ''third'']
   \<and> temperatures 3 = [7 / 10, 9 / 10, 11 / 10]"
proof -
  have u: "[0..<nat 3] = [0, 1, 2]" by code_simp
  have u': "[0..<3] = [0, 1, 2::nat]" by code_simp
  have h1: "mset [0, 1, 2] = mset [0..<nat 3]" unfolding u by simp
  have h2: "mset [2, 0, 1] = mset [0..<nat 3]" unfolding u by simp
  note t = interpretations_independent_of_arrival [OF h1 h2, of
        "\<lambda>k r. if k = 1 then Inl ''timeout'' else Inr (if k = 0 then ''first'' else ''third'')"
        "Image [] ''image/jpeg''"]
  have a: "returned (run_parallel_interpretations
        (\<lambda>k r. if k = 1 then Inl ''timeout'' else Inr (if k = 0 then ''first'' else ''third''))
        [0, 1, 2] (Image [] ''image/jpeg'') 3)
     = returned (run_parallel_interpretations
        (\<lambda>k r. if k = 1 then Inl ''timeout'' else Inr (if k = 0 then ''first'' else ''third''))
        [2, 0, 1] (Image [] ''image/jpeg'') 3)"
    by (rule t [THEN conjunct1])
  have b: "returned (run_parallel_interpretations
        (\<lambda>k r. if k = 1 then Inl ''timeout'' else Inr (if k = 0 then ''first'' else ''third''))
        [0, 1, 2] (Image [] ''image/jpeg'') 3) = Inr [''first'', ''third'']"
    using t [THEN conjunct2, THEN conjunct1] by (simp add: u')
  have c: "temperatures 3 = [7 / 10, 9 / 10, 11 / 10]"
    using t [THEN conjunct2, THEN conjunct2, THEN conjunct2, THEN conjunct1] by (simp add: u')
  show ?thesis
    by (intro conjI) (fact h1, fact h2, fact a, fact b, fact c)
qed

text \<open>
  C6 (as amended). The thread-pool fan-out of \<open>streamlit_demo_0.py\<close> submits exactly \<open>N\<close>
  requests, the \<open>i\<close>-th with temperature \<open>0.7 + 0.2 i\<close>, so no two with the same
  temperature. The first asynchronous variant creates \<open>N\<close> requests as well, but its
  \<open>generate_interpretation\<close> sends every one of them with the fixed temperature \<open>0.2\<close>.
\<close>

theorem interpretation_requests:
  "issued (run_parallel_interpretations call arrival img N) =
     map (\<lambda>i. \<lparr>contents = InitialPrompt, image = Some img,
                temperature = 7 / 10 + of_nat i * (2 / 10), search = False\<rparr>) [0..<nat N]
   \<and> length (issued (run_parallel_interpretations call arrival img N)) = nat N
   \<and> distinct (map temperature (issued (run_parallel_interpretations call arrival img N)))
   \<and> v1_issued img N =
     replicate (nat N) \<lparr>contents = InitialPrompt, image = Some img,
                         temperature = 2 / 10, search = False\<rparr>"
proof -
  have a: "issued (run_parallel_interpretations call arrival img N) =
     map (\<lambda>i. \<lparr>contents = InitialPrompt, image = Some img,
                temperature = 7 / 10 + of_nat i * (2 / 10), search = False\<rparr>) [0..<nat N]"
    by (simp add: interpretations_issued generate_interpretation_def)
  have "inj (\<lambda>i::nat. (7 / 10 + of_nat i * (2 / 10) :: rat))"
    by (rule injI) simp
  then have b: "distinct (map temperature (issued (run_parallel_interpretations call arrival img N)))"
    unfolding a by (simp add: comp_def distinct_map inj_on_def)
  have c: "v1_issued img N =
     replicate (nat N) \<lparr>contents = InitialPrompt, image = Some img,
                         temperature = 2 / 10, search = False\<rparr>"
    by (simp add: v1_issued_def temperatures_def v1_generate_interpretation_def comp_def map_replicate_const)
  from a b c show ?thesis by simp
qed

theorem v1_fixed_temperature_counterexample:
  "map temperature (v1_issued (Image [] ''image/jpeg'') 2) = [2 / 10, 2 / 10]
   \<and> map temperature (v1_issued (Image [] ''image/jpeg'') 2) \<noteq> [7 / 10 + 0 * (2 / 10), 7 / 10 + 1 * (2 / 10)]
   \<and> \<not> distinct (map temperature (v1_issued (Image [] ''image/jpeg'') 2))"
proof -
  have u: "[0..<2] = [0, 1::nat]" by code_simp
  show ?thesis by (simp add: v1_issued_def temperatures_def v1_generate_interpretation_def u)
qed

section \<open>Properties of the verification fan-out\<close>

lemma collect_verification_foldl:
  "foldl (collect_verification call vps) acc arrival =
     (fst acc @ map (\<lambda>k. case call k (verification_request (vps ! k)) of
                           Inr r \<Rightarrow> Verified (fst (vps ! k))
                         | Inl e \<Rightarrow> Error_verifying (fst (vps ! k)) e) arrival,
      snd acc @ map (\<lambda>k. (fst (vps ! k),
                           case call k (verification_request (vps ! k)) of
                             Inr r \<Rightarrow> r
                           | Inl e \<Rightarrow> ''Error: '' @ e)) arrival)"
  by (induction arrival arbitrary: acc)
     (auto simp: collect_verification_def Let_def split: sum.splits)

lemma map_fst_sort_key: "map f (sort_key f xs) = sort (map f xs)"
  by (rule properties_for_sort [symmetric]) (simp_all add: sorted_sort_key)

lemma verification_returned_aux:
  assumes "medicine_groups \<noteq> []" and "mset arrival = mset [0..<length medicine_groups]"
  shows "\<exists>results.
           returned (verify_medicine_groups call arrival medicine_groups) = Inr results
           \<and> length results = length medicine_groups
           \<and> map fst results = sort (map fst medicine_groups)
           \<and> mset results =
               mset (map (\<lambda>k. (fst (medicine_groups ! k),
                                case call k \<lparr>contents = VerificationPrompt (fst (medicine_groups ! k))
                                                          (fst (snd (medicine_groups ! k))),
                                             image = None, temperature = 2 / 10, search = True\<rparr> of
                                  Inr text \<Rightarrow> text
                                | Inl e \<Rightarrow> ''Error: '' @ e))
                      [0..<length medicine_groups])"
proof -
  let ?vps = "map (\<lambda>(p, t, g). (p, VerificationPrompt p t)) medicine_groups"
  let ?E = "\<lambda>k. (fst (?vps ! k),
                  case call k (verification_request (?vps ! k)) of
                    Inr r \<Rightarrow> r | Inl e \<Rightarrow> ''Error: '' @ e)"
  let ?E' = "\<lambda>k. (fst (medicine_groups ! k),
                   case call k \<lparr>contents = VerificationPrompt (fst (medicine_groups ! k))
                                             (fst (snd (medicine_groups ! k))),
                                image = None, temperature = 2 / 10, search = True\<rparr> of
                     Inr text \<Rightarrow> text | Inl e \<Rightarrow> ''Error: '' @ e)"
  let ?rs = "sort_key fst (map ?E arrival)"
  have ret: "returned (verify_medicine_groups call arrival medicine_groups) = Inr ?rs"
    using assms(1)
    by (simp add: verify_medicine_groups_def Let_def collect_verification_foldl)
  have E: "?E k = ?E' k" if "k < length medicine_groups" for k
    using that by (simp add: verification_request_def split_beta)
  have e1: "map ?E [0..<length medicine_groups] = map ?E' [0..<length medicine_groups]"
    by (rule map_cong) (simp_all only: E set_upt atLeastLessThan_iff)
  have e2: "mset (map ?E arrival) = mset (map ?E [0..<length medicine_groups])"
    unfolding mset_map assms(2) ..
  have m: "mset ?rs = mset (map ?E' [0..<length medicine_groups])"
    by (simp only: mset_sort e2 e1)
  have "length arrival = length [0..<length medicine_groups]"
    using assms(2) by (rule mset_eq_length)
  then have len: "length ?rs = length medicine_groups" by simp
  have "map fst (map ?E' [0..<length medicine_groups]) = map fst medicine_groups"
    by (rule nth_equalityI) simp_all
  moreover have "mset (map fst ?rs) = mset (map fst (map ?E' [0..<length medicine_groups]))"
    unfolding mset_map m ..
  ultimately have k1: "mset (map fst ?rs) = mset (map fst medicine_groups)"
    by (simp only:)
  have k2: "sorted (map fst ?rs)" by (rule sorted_sort_key)
  have keys: "map fst ?rs = sort (map fst medicine_groups)"
    using properties_for_sort [OF k1 k2] by simp
  from ret len keys m show ?thesis by blast
qed

text \<open>
  C4 (as amended). For every non-empty list of groups and every completion order, the
  verification fan-out returns a list with exactly one entry per submitted group: the
  entry of a group is its position with the response text of its call, or with the text
  \<open>Error: \<close> followed by the exception's message when the call raised, so a failure
  neither removes an entry nor stops the batch. The entries are in ascending order of
  position. One request is submitted per group. \<open>verify_medicine_name\<close> of the second
  variant likewise returns the error text when its call raises.
\<close>

theorem verification_one_entry_per_group:
  assumes "medicine_groups \<noteq> []" and "mset arrival = mset [0..<length medicine_groups]"
  shows "(\<exists>results.
           returned (verify_medicine_groups call arrival medicine_groups) = Inr results
           \<and> length results = length medicine_groups
           \<and> map fst results = sort (map fst medicine_groups)
           \<and> mset results =
               mset (map (\<lambda>k. (fst (medicine_groups ! k),
                                case call k \<lparr>contents = VerificationPrompt (fst (medicine_groups ! k))
                                                          (fst (snd (medicine_groups ! k))),
                                             image = None, temperature = 2 / 10, search = True\<rparr> of
                                  Inr text \<Rightarrow> text
                                | Inl e \<Rightarrow> ''Error: '' @ e))
                      [0..<length medicine_groups]))
         \<and> length (issued (verify_medicine_groups call arrival medicine_groups)) = length medicine_groups
         \<and> verify_medicine_name call1 medicine_name =
             (case call1 \<lparr>contents = NamePrompt medicine_name, image = None,
                           temperature = 1 / 10, search = True\<rparr> of
                Inr text \<Rightarrow> text
              | Inl e \<Rightarrow> ''Error verifying medicine: '' @ e)"
proof -
  have "length (issued (verify_medicine_groups call arrival medicine_groups)) = length medicine_groups"
    using assms(1) by (simp add: verify_medicine_groups_def Let_def)
  moreover have "verify_medicine_name call1 medicine_name =
             (case call1 \<lparr>contents = NamePrompt medicine_name, image = None,
                           temperature = 1 / 10, search = True\<rparr> of
                Inr text \<Rightarrow> text
              | Inl e \<Rightarrow> ''Error verifying medicine: '' @ e)"
    by (simp add: verify_medicine_name_def)
  ultimately show ?thesis
    using verification_returned_aux [OF assms, of call] by blast
qed

theorem verification_one_entry_per_group_witness:
  "[(2 :: int, ''Medicine 2: [Seclo: 70%]'', [\<lparr>name = ''Seclo'', confidence = 70, position = 2\<rparr>]),
    (1, ''Medicine 1: [Napa: 80%]'', [\<lparr>name = ''Napa'', confidence = 80, position = 1\<rparr>])] \<noteq> []
   \<and> mset [1, 0] = mset [0..<length
        [(2, ''Medicine 2: [Seclo: 70%]'', [\<lparr>name = ''Seclo'', confidence = 70, position = 2\<rparr>]),
         (1 :: int, ''Medicine 1: [Napa: 80%]'', [\<lparr>name = ''Napa'', confidence = 80, position = 1\<rparr>])]]
   \<and> (\<exists>results.
         returned (verify_medicine_groups (\<lambda>k r. if k = 0 then Inl ''quota'' else Inr ''Napa 500'') [1, 0]
           [(2, ''Medicine 2: [Seclo: 70%]'', [\<lparr>name = ''Seclo'', confidence = 70, position = 2\<rparr>]),
            (1, ''Medicine 1: [Napa: 80%]'', [\<lparr>name = ''Napa'', confidence = 80, position = 1\<rparr>])])
           = Inr results
         \<and> length results = 2 \<and> map fst results = [1, 2])
   \<and> returned (verify_medicine_groups (\<lambda>k r. if k = 0 then Inl ''quota'' else Inr ''Napa 500'') [1, 0]
           [(2, ''Medicine 2: [Seclo: 70%]'', [\<lparr>name = ''Seclo'', confidence = 70, position = 2\<rparr>]),
            (1, ''Medicine 1: [Napa: 80%]'', [\<lparr>name = ''Napa'', confidence = 80, position = 1\<rparr>])])
       = Inr [(1, ''Napa 500''), (2, ''Error: quota'')]"
proof -
  let ?gs = "[(2 :: int, ''Medicine 2: [Seclo: 70%]'', [\<lparr>name = ''Seclo'', confidence = 70, position = 2\<rparr>]),
              (1, ''Medicine 1: [Napa: 80%]'', [\<lparr>name = ''Napa'', confidence = 80, position = 1\<rparr>])]"
  let ?call = "\<lambda>(k :: nat) (r :: request). if k = 0 then (Inl ''quota'' :: string + string) else Inr ''Napa 500''"
  have h1: "?gs \<noteq> []" by simp
  have h2: "mset [1, 0] = mset [0..<length ?gs]" by (simp add: upt_rec)
  have e: "returned (verify_medicine_groups ?call [1, 0] ?gs)
           = Inr [(1, ''Napa 500''), (2, ''Error: quota'')]"
    by (simp add: verify_medicine_groups_def collect_verification_def verification_request_def)
  from verification_one_entry_per_group [OF h1 h2, of ?call]
  obtain results where r: "returned (verify_medicine_groups ?call [1, 0] ?gs) = Inr results"
    "length results = length ?gs" "map fst results = sort (map fst ?gs)"
    by blast
  from r have ex: "\<exists>results. returned (verify_medicine_groups ?call [1, 0] ?gs) = Inr results
      \<and> length results = 2 \<and> map fst results = [1, 2]"
    by simp
  show ?thesis
    by (intro conjI) (fact h1, fact h2, fact ex, fact e)
qed

theorem verification_empty_counterexample:
  "returned (verify_medicine_groups (\<lambda>k r. Inr ''ok'') [] []) = Inl ValueError
   \<and> \<not> (\<exists>results. returned (verify_medicine_groups (\<lambda>k r. Inr ''ok'') [] []) = Inr results
                    \<and> length results = 0)"
  by (simp add: verify_medicine_groups_def)

section \<open>Properties of the pipeline\<close>

lemma interpretations_shown:
  "0 < N \<Longrightarrow> shown (run_parallel_interpretations call arrival img N) =
     map (\<lambda>k. case call k (generate_interpretation (temperatures N ! k) img) of
                 Inr r \<Rightarrow> Completed_interpretation (temperatures N ! k)
               | Inl e \<Rightarrow> Error_processing (temperatures N ! k) e) arrival"
  by (simp add: run_parallel_interpretations_def Let_def collect_interpretation_foldl)


lemma no_grouped_shown:
  "0 < N \<Longrightarrow> Grouped n \<notin> set (shown (run_parallel_interpretations call arrival img N))"
  by (auto simp: interpretations_shown split: sum.splits)







section \<open>Properties of candidate extraction\<close>

lemma space_not_digit: "is_space c \<Longrightarrow> \<not> is_digit c"
  by (auto simp: is_space_def is_digit_def Let_def)

lemma special_chars [simp]:
  "\<not> is_digit CHR ''%''" "\<not> is_digit CHR ''.''" "\<not> is_digit CHR '':''"
  "\<not> is_space CHR ''%''" "\<not> is_space CHR ''.''" "\<not> is_space CHR '':''"
  "is_space CHR 0x0A"
  by (simp_all add: is_digit_def is_space_def)

lemma greedy_star_skip:
  assumes rej: "\<And>x xs n ms. cmatch c x \<Longrightarrow> rmatch p (x # xs) n ms = None"
  shows "rmatch (Atom c Star # p) s n ms =
         rmatch p (dropWhile (cmatch c) s) (n + length (takeWhile (cmatch c) s)) ms"
proof (induction s arbitrary: n)
  case Nil
  then show ?case by simp
next
  case (Cons x xs)
  show ?case
  proof (cases "cmatch c x")
    case True
    have IH: "rmatch (Atom c Star # p) xs (Suc n) ms =
              rmatch p (dropWhile (cmatch c) xs) (Suc n + length (takeWhile (cmatch c) xs)) ms"
      by (rule Cons)
    have rhs: "rmatch p (dropWhile (cmatch c) (x # xs)) (n + length (takeWhile (cmatch c) (x # xs))) ms
               = rmatch (Atom c Star # p) xs (Suc n) ms"
      using True by (simp add: IH)
    show ?thesis
    proof (cases "rmatch (Atom c Star # p) xs (Suc n) ms")
      case None
      have "rmatch (Atom c Star # p) (x # xs) n ms = rmatch p (x # xs) n ms"
        using True None by simp
      also have "\<dots> = None" by (rule rej [OF True])
      finally show ?thesis unfolding rhs None .
    next
      case (Some r)
      have "rmatch (Atom c Star # p) (x # xs) n ms = Some r"
        using True Some by simp
      then show ?thesis unfolding rhs Some .
    qed
  next
    case False
    then show ?thesis by simp
  qed
qed

lemma greedy_plus_skip:
  assumes rej: "\<And>x xs n ms. cmatch c x \<Longrightarrow> rmatch p (x # xs) n ms = None"
  shows "rmatch (Atom c Plus # p) s n ms =
         (if takeWhile (cmatch c) s = [] then None
          else rmatch p (dropWhile (cmatch c) s) (n + length (takeWhile (cmatch c) s)) ms)"
proof (cases s)
  case Nil
  then show ?thesis by simp
next
  case (Cons x xs)
  show ?thesis
  proof (cases "cmatch c x")
    case True
    have "rmatch (Atom c Plus # p) (x # xs) n ms = rmatch (Atom c Star # p) xs (Suc n) ms"
      using True by simp
    also have "\<dots> = rmatch p (dropWhile (cmatch c) xs) (Suc n + length (takeWhile (cmatch c) xs)) ms"
      by (rule greedy_star_skip [OF rej])
    finally show ?thesis using True Cons by simp
  next
    case False
    then show ?thesis using Cons by simp
  qed
qed

lemma cmatch_Digit: "cmatch Digit = is_digit"
  by (rule ext) simp

lemma cmatch_Space: "cmatch Space = is_space"
  by (rule ext) simp

lemma percent_match:
  "rmatch [GroupClose, Atom (Lit CHR ''%'') One] s n ms =
     (case s of c # _ \<Rightarrow> if c = CHR ''%'' then Some (rev ms @ [n]) else None | [] \<Rightarrow> None)"
  by (cases s) simp_all

lemma digits_percent_match:
  "rmatch [GroupOpen, Atom Digit Plus, GroupClose, Atom (Lit CHR ''%'') One] s n ms =
     (case dropWhile is_digit s of
        c # _ \<Rightarrow> if takeWhile is_digit s \<noteq> [] \<and> c = CHR ''%''
                  then Some (rev ms @ [n, n + length (takeWhile is_digit s)]) else None
      | [] \<Rightarrow> None)"
proof -
  have rej: "\<And>x xs n ms. cmatch Digit x \<Longrightarrow>
      rmatch [GroupClose, Atom (Lit CHR ''%'') One] (x # xs) n ms = None"
    by auto
  have "rmatch [GroupOpen, Atom Digit Plus, GroupClose, Atom (Lit CHR ''%'') One] s n ms
        = rmatch [Atom Digit Plus, GroupClose, Atom (Lit CHR ''%'') One] s n (n # ms)"
    by simp
  also have "\<dots> = (if takeWhile is_digit s = [] then None
          else rmatch [GroupClose, Atom (Lit CHR ''%'') One] (dropWhile is_digit s)
                 (n + length (takeWhile is_digit s)) (n # ms))"
    using greedy_plus_skip [of Digit "[GroupClose, Atom (Lit CHR ''%'') One]" s n "n # ms", OF rej]
    unfolding cmatch_Digit .
  also have "\<dots> = (case dropWhile is_digit s of
        c # _ \<Rightarrow> if takeWhile is_digit s \<noteq> [] \<and> c = CHR ''%''
                  then Some (rev ms @ [n, n + length (takeWhile is_digit s)]) else None
      | [] \<Rightarrow> None)"
    unfolding percent_match
    by (cases "dropWhile is_digit s"; cases "takeWhile is_digit s = []")
       (simp_all del: dropWhile_eq_Nil_conv takeWhile_eq_Nil_iff)
  finally show ?thesis .
qed

lemma tail_match:
  "rmatch [Atom Space Star, GroupOpen, Atom Digit Plus, GroupClose, Atom (Lit CHR ''%'') One] t n ms =
     (case scan_tail t of
        None \<Rightarrow> None
      | Some pct \<Rightarrow> Some (rev ms @ [n + spaces_before t, n + spaces_before t + length pct]))"
proof -
  have rej: "\<And>x xs n ms. cmatch Space x \<Longrightarrow>
      rmatch [GroupOpen, Atom Digit Plus, GroupClose, Atom (Lit CHR ''%'') One] (x # xs) n ms = None"
    unfolding digits_percent_match by (simp add: space_not_digit)
  have "rmatch [Atom Space Star, GroupOpen, Atom Digit Plus, GroupClose, Atom (Lit CHR ''%'') One] t n ms
        = rmatch [GroupOpen, Atom Digit Plus, GroupClose, Atom (Lit CHR ''%'') One]
            (dropWhile is_space t) (n + length (takeWhile is_space t)) ms"
    using greedy_star_skip [of Space "[GroupOpen, Atom Digit Plus, GroupClose, Atom (Lit CHR ''%'') One]" t n ms, OF rej]
    unfolding cmatch_Space .
  also have "\<dots> = (case scan_tail t of
        None \<Rightarrow> None
      | Some pct \<Rightarrow> Some (rev ms @ [n + spaces_before t, n + spaces_before t + length pct]))"
    unfolding digits_percent_match scan_tail_def spaces_before_def Let_def
    by (cases "dropWhile is_digit (dropWhile is_space t)";
        cases "takeWhile is_digit (dropWhile is_space t) = []")
       (simp_all del: dropWhile_eq_Nil_conv takeWhile_eq_Nil_iff)
  finally show ?thesis .
qed

lemma colon_tail_match:
  "rmatch [GroupClose, Atom (Lit CHR '':'') One,
           Atom Space Star, GroupOpen, Atom Digit Plus, GroupClose, Atom (Lit CHR ''%'') One] s n ms =
     (case s of
        c # t \<Rightarrow>
          (case (if c = CHR '':'' then scan_tail t else None) of
             None \<Rightarrow> None
           | Some pct \<Rightarrow> Some (rev ms @ [n, Suc n + spaces_before t, Suc n + spaces_before t + length pct]))
      | [] \<Rightarrow> None)"
proof (cases s)
  case Nil
  then show ?thesis by simp
next
  case (Cons c t)
  have "rmatch [GroupClose, Atom (Lit CHR '':'') One,
           Atom Space Star, GroupOpen, Atom Digit Plus, GroupClose, Atom (Lit CHR ''%'') One] (c # t) n ms
        = (if c = CHR '':''
           then rmatch [Atom Space Star, GroupOpen, Atom Digit Plus, GroupClose, Atom (Lit CHR ''%'') One]
                  t (Suc n) (n # ms)
           else None)"
    by simp
  then show ?thesis
    unfolding Cons tail_match by (simp split: option.splits)
qed

lemma lazy_name_match:
  assumes "CHR 0x0A \<notin> set s"
  shows "rmatch [Atom Dot LazyStar, GroupClose, Atom (Lit CHR '':'') One,
                 Atom Space Star, GroupOpen, Atom Digit Plus, GroupClose, Atom (Lit CHR ''%'') One]
           s n ms =
         (case scan_name s of
            None \<Rightarrow> None
          | Some (b, pct) \<Rightarrow>
              Some (rev ms @
                    [n + length b,
                     Suc (n + length b) + spaces_before (drop (Suc (length b)) s),
                     Suc (n + length b) + spaces_before (drop (Suc (length b)) s) + length pct]))"
  using assms
proof (induction s arbitrary: n)
  case Nil
  then show ?case by (simp add: colon_tail_match)
next
  case (Cons x xs)
  let ?T4 = "[GroupClose, Atom (Lit CHR '':'') One,
              Atom Space Star, GroupOpen, Atom Digit Plus, GroupClose, Atom (Lit CHR ''%'') One]"
  have nl: "x \<noteq> CHR 0x0A" "CHR 0x0A \<notin> set xs" using Cons.prems by auto
  have IH: "rmatch (Atom Dot LazyStar # ?T4) xs (Suc n) ms =
         (case scan_name xs of
            None \<Rightarrow> None
          | Some (b, pct) \<Rightarrow>
              Some (rev ms @
                    [Suc n + length b,
                     Suc (Suc n + length b) + spaces_before (drop (Suc (length b)) xs),
                     Suc (Suc n + length b) + spaces_before (drop (Suc (length b)) xs) + length pct]))"
    by (rule Cons.IH [OF nl(2)])
  have step: "rmatch (Atom Dot LazyStar # ?T4) (x # xs) n ms =
        (case rmatch ?T4 (x # xs) n ms of
           Some r \<Rightarrow> Some r
         | None \<Rightarrow> rmatch (Atom Dot LazyStar # ?T4) xs (Suc n) ms)"
    using nl(1) by simp
  show ?case
  proof (cases "if x = CHR '':'' then scan_tail xs else None")
    case None
    then have t4: "rmatch ?T4 (x # xs) n ms = None"
      unfolding colon_tail_match by simp
    have sn: "scan_name (x # xs) = map_option (\<lambda>(b, pct). (x # b, pct)) (scan_name xs)"
      using None by simp
    show ?thesis
      unfolding step t4 sn IH
      by (cases "scan_name xs") (simp_all add: split_beta)
  next
    case (Some pct)
    then have t4: "rmatch ?T4 (x # xs) n ms
        = Some (rev ms @ [n, Suc n + spaces_before xs, Suc n + spaces_before xs + length pct])"
      unfolding colon_tail_match by simp
    have sn: "scan_name (x # xs) = Some ([], pct)"
      using Some by simp
    show ?thesis
      unfolding step t4 sn by simp
  qed
qed

lemma scan_name_skip_spaces:
  "scan_name s = map_option (\<lambda>(b, pct). (takeWhile is_space s @ b, pct)) (scan_name (dropWhile is_space s))"
proof (induction s)
  case Nil
  then show ?case by simp
next
  case (Cons x xs)
  show ?case
  proof (cases "is_space x")
    case True
    then have "x \<noteq> CHR '':''" by auto
    then have "scan_name (x # xs) = map_option (\<lambda>(b, pct). (x # b, pct)) (scan_name xs)"
      by simp
    then show ?thesis
      using True Cons by (cases "scan_name (dropWhile is_space xs)") (simp_all add: split_beta)
  next
    case False
    then show ?thesis by (cases "scan_name (x # xs)") (simp_all add: split_beta)
  qed
qed

lemma group_name_match:
  assumes "CHR 0x0A \<notin> set s"
  shows "rmatch [GroupOpen, Atom Dot LazyStar, GroupClose, Atom (Lit CHR '':'') One,
                 Atom Space Star, GroupOpen, Atom Digit Plus, GroupClose, Atom (Lit CHR ''%'') One]
           s n ms =
         (case scan_name s of
            None \<Rightarrow> None
          | Some (b, pct) \<Rightarrow>
              Some (rev ms @
                    [n, n + length b,
                     Suc (n + length b) + spaces_before (drop (Suc (length b)) s),
                     Suc (n + length b) + spaces_before (drop (Suc (length b)) s) + length pct]))"
proof -
  have "rmatch [GroupOpen, Atom Dot LazyStar, GroupClose, Atom (Lit CHR '':'') One,
                 Atom Space Star, GroupOpen, Atom Digit Plus, GroupClose, Atom (Lit CHR ''%'') One]
           s n ms
        = rmatch [Atom Dot LazyStar, GroupClose, Atom (Lit CHR '':'') One,
                 Atom Space Star, GroupOpen, Atom Digit Plus, GroupClose, Atom (Lit CHR ''%'') One]
           s n (n # ms)"
    by simp
  also note lazy_name_match [OF assms]
  finally show ?thesis
    by (simp split: option.splits)
qed

lemma group_name_match_None:
  assumes "CHR 0x0A \<notin> set s"
  shows "(rmatch [GroupOpen, Atom Dot LazyStar, GroupClose, Atom (Lit CHR '':'') One,
                 Atom Space Star, GroupOpen, Atom Digit Plus, GroupClose, Atom (Lit CHR ''%'') One]
           s n ms = None) = (scan_name s = None)"
  unfolding group_name_match [OF assms] by (simp split: option.splits)

lemma scan_name_skip_None:
  "(scan_name (dropWhile is_space s) = None) = (scan_name s = None)"
  using scan_name_skip_spaces [of s] by (cases "scan_name (dropWhile is_space s)") simp_all

lemma spaces_group_name_match:
  assumes "CHR 0x0A \<notin> set s"
  shows "rmatch [Atom Space Star, GroupOpen, Atom Dot LazyStar, GroupClose, Atom (Lit CHR '':'') One,
                 Atom Space Star, GroupOpen, Atom Digit Plus, GroupClose, Atom (Lit CHR ''%'') One]
           s n ms =
         rmatch [GroupOpen, Atom Dot LazyStar, GroupClose, Atom (Lit CHR '':'') One,
                 Atom Space Star, GroupOpen, Atom Digit Plus, GroupClose, Atom (Lit CHR ''%'') One]
           (dropWhile is_space s) (n + spaces_before s) ms"
  using assms
proof (induction s arbitrary: n)
  case Nil
  then show ?case by (simp add: spaces_before_def)
next
  case (Cons x xs)
  let ?P3 = "[GroupOpen, Atom Dot LazyStar, GroupClose, Atom (Lit CHR '':'') One,
                 Atom Space Star, GroupOpen, Atom Digit Plus, GroupClose, Atom (Lit CHR ''%'') One]"
  have nl: "CHR 0x0A \<notin> set xs" "CHR 0x0A \<notin> set (x # xs)" "CHR 0x0A \<notin> set (dropWhile is_space xs)"
    using Cons.prems set_dropWhileD [of "CHR 0x0A" is_space xs] by auto
  have IH: "rmatch (Atom Space Star # ?P3) xs (Suc n) ms
            = rmatch ?P3 (dropWhile is_space xs) (Suc n + spaces_before xs) ms"
    by (rule Cons.IH [OF nl(1)])
  show ?case
  proof (cases "is_space x")
    case False
    then show ?thesis by (simp add: spaces_before_def)
  next
    case True
    have rhs: "rmatch ?P3 (dropWhile is_space (x # xs)) (n + spaces_before (x # xs)) ms
               = rmatch ?P3 (dropWhile is_space xs) (Suc n + spaces_before xs) ms"
      using True by (simp add: spaces_before_def)
    show ?thesis
    proof (cases "rmatch (Atom Space Star # ?P3) xs (Suc n) ms")
      case (Some r)
      have "rmatch (Atom Space Star # ?P3) (x # xs) n ms = Some r"
        using True Some by simp
      then show ?thesis unfolding rhs using Some IH by simp
    next
      case None
      then have "rmatch ?P3 (dropWhile is_space xs) (Suc n + spaces_before xs) ms = None"
        using IH by simp
      then have "scan_name (dropWhile is_space xs) = None"
        unfolding group_name_match_None [OF nl(3)] .
      then have "scan_name xs = None"
        unfolding scan_name_skip_None .
      then have "scan_name (x # xs) = None"
        using True by auto
      then have bktr: "rmatch ?P3 (x # xs) n ms = None"
        unfolding group_name_match_None [OF nl(2)] .
      have "rmatch (Atom Space Star # ?P3) (x # xs) n ms = None"
        using True None bktr by simp
      then show ?thesis unfolding rhs using None IH by simp
    qed
  qed
qed

lemma re_search_from_bol:
  "0 < n \<Longrightarrow> re_search_from (Bol # p) s n = None"
  by (induction s arbitrary: n) simp_all

lemma re_search_bol: "re_search (Bol # p) s = rmatch p s 0 []"
  unfolding re_search_def
  by (cases s) (simp_all add: re_search_from_bol split: option.splits)

lemma scan_name_decomp:
  "scan_name s = Some (b, pct) \<Longrightarrow> \<exists>t. s = b @ CHR '':'' # t \<and> scan_tail t = Some pct"
proof (induction s arbitrary: b)
  case Nil
  then show ?case by simp
next
  case (Cons x xs)
  show ?case
  proof (cases "if x = CHR '':'' then scan_tail xs else None")
    case (Some p)
    then show ?thesis using Cons.prems by (auto split: if_splits)
  next
    case None
    then have "map_option (\<lambda>(b, pct). (x # b, pct)) (scan_name xs) = Some (b, pct)"
      using Cons.prems by simp
    then obtain b' where b': "scan_name xs = Some (b', pct)" "b = x # b'"
      by (auto simp: split_beta)
    from Cons.IH [OF b'(1)] b'(2) show ?thesis by auto
  qed
qed

lemma scan_tail_decomp:
  assumes "scan_tail t = Some pct"
  shows "\<exists>rest. t = takeWhile is_space t @ pct @ CHR ''%'' # rest"
    and "pct \<noteq> []" and "list_all is_digit pct"
proof -
  let ?t1 = "dropWhile is_space t"
  from assms obtain c rest where d: "dropWhile is_digit ?t1 = c # rest"
    and p: "pct = takeWhile is_digit ?t1" "pct \<noteq> []" "c = CHR ''%''"
    unfolding scan_tail_def Let_def
    by (cases "dropWhile is_digit ?t1") (auto split: if_splits simp del: dropWhile_eq_Nil_conv takeWhile_eq_Nil_iff)
  have "t = takeWhile is_space t @ ?t1" by simp
  also have "?t1 = takeWhile is_digit ?t1 @ dropWhile is_digit ?t1" by simp
  finally have "t = takeWhile is_space t @ pct @ CHR ''%'' # rest"
    unfolding d p(1) [symmetric] p(3) .
  then show "\<exists>rest. t = takeWhile is_space t @ pct @ CHR ''%'' # rest" ..
  show "pct \<noteq> []" by fact
  show "list_all is_digit pct"
    unfolding p(1) list_all_iff by (auto dest: set_takeWhileD)
qed

lemma dot_match:
  "rmatch [GroupClose, Atom (Lit CHR ''.'') One] s n ms =
     (case s of c # _ \<Rightarrow> if c = CHR ''.'' then Some (rev ms @ [n]) else None | [] \<Rightarrow> None)"
  by (cases s) simp_all

lemma position_match:
  "re_search position_pattern line =
     (case dropWhile is_digit line of
        c # _ \<Rightarrow> if takeWhile is_digit line \<noteq> [] \<and> c = CHR ''.''
                  then Some [0, length (takeWhile is_digit line)] else None
      | [] \<Rightarrow> None)"
proof -
  have rej: "\<And>x xs n ms. cmatch Digit x \<Longrightarrow>
      rmatch [GroupClose, Atom (Lit CHR ''.'') One] (x # xs) n ms = None"
    by auto
  have "re_search position_pattern line
        = rmatch [Atom Digit Plus, GroupClose, Atom (Lit CHR ''.'') One] line 0 [0]"
    unfolding position_pattern_def re_search_bol by simp
  also have "\<dots> = (if takeWhile is_digit line = [] then None
          else rmatch [GroupClose, Atom (Lit CHR ''.'') One] (dropWhile is_digit line)
                 (0 + length (takeWhile is_digit line)) [0])"
    using greedy_plus_skip [of Digit "[GroupClose, Atom (Lit CHR ''.'') One]" line 0 "[0]", OF rej]
    unfolding cmatch_Digit .
  also have "\<dots> = (case dropWhile is_digit line of
        c # _ \<Rightarrow> if takeWhile is_digit line \<noteq> [] \<and> c = CHR ''.''
                  then Some [0, length (takeWhile is_digit line)] else None
      | [] \<Rightarrow> None)"
    unfolding dot_match
    by (cases "dropWhile is_digit line"; cases "takeWhile is_digit line = []")
       (simp_all del: dropWhile_eq_Nil_conv takeWhile_eq_Nil_iff)
  finally show ?thesis .
qed

lemma spaces_plus_match:
  assumes "CHR 0x0A \<notin> set r"
  shows "rmatch [Atom Space Plus, GroupOpen, Atom Dot LazyStar, GroupClose, Atom (Lit CHR '':'') One,
                 Atom Space Star, GroupOpen, Atom Digit Plus, GroupClose, Atom (Lit CHR ''%'') One]
           r k ms =
         (if (case r of w # _ \<Rightarrow> is_space w | [] \<Rightarrow> False)
          then rmatch [GroupOpen, Atom Dot LazyStar, GroupClose, Atom (Lit CHR '':'') One,
                 Atom Space Star, GroupOpen, Atom Digit Plus, GroupClose, Atom (Lit CHR ''%'') One]
                 (dropWhile is_space r) (k + spaces_before r) ms
          else None)"
proof (cases r)
  case Nil
  then show ?thesis by simp
next
  case (Cons w r')
  have nl: "CHR 0x0A \<notin> set r'" using assms Cons by simp
  show ?thesis
  proof (cases "is_space w")
    case False
    then show ?thesis unfolding Cons by simp
  next
    case True
    have "rmatch [Atom Space Plus, GroupOpen, Atom Dot LazyStar, GroupClose, Atom (Lit CHR '':'') One,
                 Atom Space Star, GroupOpen, Atom Digit Plus, GroupClose, Atom (Lit CHR ''%'') One]
           (w # r') k ms
        = rmatch [Atom Space Star, GroupOpen, Atom Dot LazyStar, GroupClose, Atom (Lit CHR '':'') One,
                 Atom Space Star, GroupOpen, Atom Digit Plus, GroupClose, Atom (Lit CHR ''%'') One]
           r' (Suc k) ms"
      using True by simp
    also note spaces_group_name_match [OF nl]
    finally show ?thesis
      unfolding Cons using True by (simp add: spaces_before_def)
  qed
qed

lemma line_match:
  assumes "CHR 0x0A \<notin> set line"
  shows "re_search line_pattern line =
     (case dropWhile is_digit line of
        c # r \<Rightarrow>
          if takeWhile is_digit line \<noteq> [] \<and> c = CHR ''.'' \<and>
             (case r of w # _ \<Rightarrow> is_space w | [] \<Rightarrow> False)
          then rmatch [GroupOpen, Atom Dot LazyStar, GroupClose, Atom (Lit CHR '':'') One,
                 Atom Space Star, GroupOpen, Atom Digit Plus, GroupClose, Atom (Lit CHR ''%'') One]
                 (dropWhile is_space r)
                 (Suc (length (takeWhile is_digit line)) + spaces_before r) []
          else None
      | [] \<Rightarrow> None)"
proof -
  let ?P3 = "[GroupOpen, Atom Dot LazyStar, GroupClose, Atom (Lit CHR '':'') One,
                 Atom Space Star, GroupOpen, Atom Digit Plus, GroupClose, Atom (Lit CHR ''%'') One]"
  let ?Q = "Atom (Lit CHR ''.'') One # Atom Space Plus # ?P3"
  have rej: "\<And>x xs n ms. cmatch Digit x \<Longrightarrow> rmatch ?Q (x # xs) n ms = None"
    by auto
  have "re_search line_pattern line = rmatch (Atom Digit Plus # ?Q) line 0 []"
    unfolding line_pattern_def re_search_bol ..
  also have "\<dots> = (if takeWhile is_digit line = [] then None
          else rmatch ?Q (dropWhile is_digit line) (0 + length (takeWhile is_digit line)) [])"
    using greedy_plus_skip [of Digit ?Q line 0 "[]", OF rej]
    unfolding cmatch_Digit .
  finally have 1: "re_search line_pattern line = (if takeWhile is_digit line = [] then None
          else rmatch ?Q (dropWhile is_digit line) (length (takeWhile is_digit line)) [])"
    by (simp only: add_0)
  show ?thesis
  proof (cases "dropWhile is_digit line")
    case Nil
    show ?thesis unfolding 1 Nil by simp
  next
    case (Cons c r)
    have "set r \<subseteq> set (dropWhile is_digit line)" unfolding Cons by auto
    then have nl: "CHR 0x0A \<notin> set r"
      using assms set_dropWhileD [of _ is_digit line] by blast
    have 2: "rmatch ?Q (c # r) n [] = (if c = CHR ''.'' then rmatch (Atom Space Plus # ?P3) r (Suc n) [] else None)"
      for n by simp
    show ?thesis
      unfolding 1 Cons 2 spaces_plus_match [OF nl]
      by (cases "takeWhile is_digit line = []")
         (simp_all del: dropWhile_eq_Nil_conv takeWhile_eq_Nil_iff)
  qed
qed

lemma slice_mid':
  "s = a @ x @ c \<Longrightarrow> i = length a \<Longrightarrow> j = length a + length x \<Longrightarrow> slice s i j = x"
  by (simp add: slice_def)

lemma match_group_1: "match_group s (a # b # rest) 1 = slice s a b"
  by (simp add: match_group_def)

lemma match_group_2: "match_group s (a # b # c # d # rest) 2 = slice s c d"
  by (simp add: match_group_def)

lemma strip_spaces_prefix: "strip (takeWhile is_space r @ b) = strip b"
proof -
  have "dropWhile is_space (takeWhile is_space r @ b) = dropWhile is_space b"
    by (rule dropWhile_append2) (auto dest: set_takeWhileD)
  then show ?thesis by (simp add: strip_def lstrip_def)
qed

lemma extract_line_scan:
  assumes nl: "CHR 0x0A \<notin> set line"
  shows "extract_line line =
     (case scan_line line of
        None \<Rightarrow> []
      | Some (n, b, pct) \<Rightarrow>
          [\<lparr>name = strip b, confidence = int_of_digits pct, position = int_of_digits n\<rparr>])"
proof -
  let ?n = "takeWhile is_digit line"
  let ?P3 = "[GroupOpen, Atom Dot LazyStar, GroupClose, Atom (Lit CHR '':'') One,
                 Atom Space Star, GroupOpen, Atom Digit Plus, GroupClose, Atom (Lit CHR ''%'') One]"
  show ?thesis
  proof (cases "dropWhile is_digit line")
    case Nil
    have "re_search line_pattern line = None"
      unfolding line_match [OF nl] Nil by simp
    moreover have "scan_line line = None"
      unfolding scan_line_def Let_def Nil by simp
    ultimately show ?thesis by (simp add: extract_line_def)
  next
    case (Cons c r)
    let ?ok = "?n \<noteq> [] \<and> c = CHR ''.'' \<and> (case r of w # _ \<Rightarrow> is_space w | [] \<Rightarrow> False)"
    show ?thesis
    proof (cases ?ok)
      case False
      then have nok: "?ok = False" by blast
      have "re_search line_pattern line = None"
        unfolding line_match [OF nl] Cons by (simp only: list.case nok if_False)
      moreover have "scan_line line = None"
        unfolding scan_line_def Let_def Cons by (simp only: list.case nok if_False)
      ultimately show ?thesis by (simp add: extract_line_def)
    next
      case True
      then have ok: "?ok = True" by blast
      let ?ws = "takeWhile is_space r"
      let ?r1 = "dropWhile is_space r"
      let ?K = "Suc (length ?n) + spaces_before r"
      have line: "line = ?n @ CHR ''.'' # r"
        using takeWhile_dropWhile_id [of is_digit line] True unfolding Cons by simp
      have "set ?r1 \<subseteq> set line"
        using set_dropWhileD [of _ is_space r] by (subst line) auto
      then have nl1: "CHR 0x0A \<notin> set ?r1" using nl by blast
      have m: "re_search line_pattern line = rmatch ?P3 ?r1 ?K []"
        unfolding line_match [OF nl] Cons by (simp only: list.case ok if_True)
      have s: "scan_line line = map_option (\<lambda>(b, pct). (?n, b, pct)) (scan_name r)"
        unfolding scan_line_def Let_def Cons by (simp only: list.case ok if_True)
      show ?thesis
      proof (cases "scan_name ?r1")
        case None
        have "re_search line_pattern line = None"
          unfolding m group_name_match [OF nl1] None by simp
        moreover have "scan_line line = None"
          unfolding s using scan_name_skip_None [of r] None by simp
        ultimately show ?thesis by (simp add: extract_line_def)
      next
        case (Some bp)
        obtain b' pct where bp: "bp = (b', pct)" by (cases bp)
        from Some bp have sn1: "scan_name ?r1 = Some (b', pct)" by simp
        from scan_name_decomp [OF sn1] obtain t
          where r1: "?r1 = b' @ CHR '':'' # t" and st: "scan_tail t = Some pct" by blast
        from scan_tail_decomp(1) [OF st] obtain rest
          where t: "t = takeWhile is_space t @ pct @ CHR ''%'' # rest" by blast
        let ?wt = "takeWhile is_space t"
        have r: "r = ?ws @ b' @ CHR '':'' # t"
          using takeWhile_dropWhile_id [of is_space r] unfolding r1 by simp
        have dr: "drop (Suc (length b')) ?r1 = t" unfolding r1 by simp
        let ?m = "[?K, ?K + length b',
                   Suc (?K + length b') + spaces_before t,
                   Suc (?K + length b') + spaces_before t + length pct]"
        have m': "re_search line_pattern line = Some ?m"
          unfolding m group_name_match [OF nl1] sn1 by (simp add: dr)
        have l1: "line = (?n @ CHR ''.'' # ?ws) @ b' @ (CHR '':'' # t)"
          by (subst line, subst r) simp
        have l2: "line = (?n @ CHR ''.'' # ?ws @ b' @ CHR '':'' # ?wt) @ pct @ (CHR ''%'' # rest)"
          by (subst line, subst r, subst t) simp
        have g1: "match_group line ?m 1 = b'"
          unfolding match_group_1
          by (rule slice_mid' [OF l1]) (simp_all add: spaces_before_def)
        have g2: "match_group line ?m 2 = pct"
          unfolding match_group_2
          by (rule slice_mid' [OF l2]) (simp_all add: spaces_before_def)
        have pm: "re_search position_pattern line = Some [0, length ?n]"
          unfolding position_match Cons using True
          by (simp del: dropWhile_eq_Nil_conv takeWhile_eq_Nil_iff)
        have l3: "line = [] @ ?n @ (CHR ''.'' # r)" using line by simp
        have g3: "match_group line [0, length ?n] 1 = ?n"
          unfolding match_group_1
          by (rule slice_mid' [OF l3]) simp_all
        have e: "extract_line line =
                 [\<lparr>name = strip b', confidence = int_of_digits pct, position = int_of_digits ?n\<rparr>]"
          unfolding extract_line_def m' pm
          by (simp only: option.case Let_def g1 g2 g3)
        have "scan_name r = Some (?ws @ b', pct)"
          using scan_name_skip_spaces [of r] sn1 by simp
        then have s': "scan_line line = Some (?n, ?ws @ b', pct)"
          unfolding s by simp
        show ?thesis
          unfolding e s' by (simp add: strip_spaces_prefix)
      qed
    qed
  qed
qed

lemma split_nl_no_newline: "l \<in> set (split_nl s) \<Longrightarrow> CHR 0x0A \<notin> set l"
proof (induction s arbitrary: l)
  case Nil
  then show ?case by simp
next
  case (Cons c cs)
  show ?case
  proof (cases "c = CHR 0x0A")
    case True
    then show ?thesis using Cons by auto
  next
    case False
    then show ?thesis
      using Cons by (cases "split_nl cs") auto
  qed
qed

lemma foldl_append_concat: "foldl (\<lambda>acc x. acc @ f x) a xs = a @ concat (map f xs)"
  by (induction xs arbitrary: a) simp_all

lemma extract_medicine_candidates_concat:
  "extract_medicine_candidates texts =
     concat (map extract_line (concat (map (\<lambda>t. split_nl (strip t)) texts)))"
proof -
  have "foldl (\<lambda>medicine_candidates interpretation.
              foldl (\<lambda>acc line. acc @ extract_line line) medicine_candidates
                (split_nl (strip interpretation))) a texts
        = a @ concat (map extract_line (concat (map (\<lambda>t. split_nl (strip t)) texts)))" for a
    by (induction texts arbitrary: a) (simp_all add: foldl_append_concat)
  then show ?thesis
    unfolding extract_medicine_candidates_def by simp
qed

lemma scan_tail_iff: "scan_tail t = Some pct \<longleftrightarrow> percentage_after t pct"
proof
  assume a: "scan_tail t = Some pct"
  from scan_tail_decomp [OF a] show "percentage_after t pct"
    unfolding percentage_after_def
    by (metis list_all_iff set_takeWhileD)
next
  assume "percentage_after t pct"
  then obtain ws rest where p: "pct \<noteq> []" "list_all is_digit pct" "list_all is_space ws"
    and t: "t = ws @ pct @ CHR ''%'' # rest"
    unfolding percentage_after_def by blast
  obtain d ds where pct: "pct = d # ds" using p(1) by (cases pct) auto
  have d: "is_digit d" using p(2) pct by simp
  then have nd: "\<not> is_space d" using space_not_digit by blast
  have "dropWhile is_space t = dropWhile is_space (pct @ CHR ''%'' # rest)"
    unfolding t using p(3) by (intro dropWhile_append2) (simp add: list_all_iff)
  also have "\<dots> = pct @ CHR ''%'' # rest"
    unfolding pct using nd by simp
  finally have 1: "dropWhile is_space t = pct @ CHR ''%'' # rest" .
  have 2: "takeWhile is_digit (pct @ CHR ''%'' # rest) = pct"
    using p(2) by (simp add: takeWhile_append2 list_all_iff)
  have 3: "dropWhile is_digit (pct @ CHR ''%'' # rest) = CHR ''%'' # rest"
    using p(2) by (simp add: dropWhile_append2 list_all_iff)
  show "scan_tail t = Some pct"
    unfolding scan_tail_def Let_def 1 2 3 using p(1) by simp
qed

lemma scan_name_first:
  "s = b' @ CHR '':'' # t' \<Longrightarrow> scan_tail t' = Some pct' \<Longrightarrow>
   \<exists>b pct. scan_name s = Some (b, pct) \<and> length b \<le> length b'"
proof (induction s arbitrary: b')
  case Nil
  then show ?case by simp
next
  case (Cons x xs)
  show ?case
  proof (cases "if x = CHR '':'' then scan_tail xs else None")
    case (Some p)
    then have "scan_name (x # xs) = Some ([], p)" by simp
    then show ?thesis by simp
  next
    case None
    have "b' \<noteq> []"
    proof
      assume "b' = []"
      then have "x = CHR '':''" "xs = t'" using Cons.prems(1) by simp_all
      then show False using None Cons.prems(2) by simp
    qed
    then obtain b'' where b': "b' = x # b''" "xs = b'' @ CHR '':'' # t'"
      using Cons.prems(1) by (cases b') auto
    from Cons.IH [OF b'(2) Cons.prems(2)] obtain b pct
      where "scan_name xs = Some (b, pct)" "length b \<le> length b''" by blast
    then have "scan_name (x # xs) = Some (x # b, pct)" "length (x # b) \<le> length b'"
      using None b'(1) by simp_all
    then show ?thesis by blast
  qed
qed

lemma line_format_digits:
  assumes "line_format line n between pct"
  shows "takeWhile is_digit line = n" and "dropWhile is_digit line = CHR ''.'' # drop (Suc (length n)) line"
    and "\<exists>t. drop (Suc (length n)) line = between @ CHR '':'' # t \<and> scan_tail t = Some pct"
proof -
  from assms obtain t where n: "n \<noteq> []" "list_all is_digit n"
    and l: "line = n @ CHR ''.'' # between @ CHR '':'' # t" and p: "percentage_after t pct"
    unfolding line_format_def by blast
  show "takeWhile is_digit line = n"
    by (subst l) (use n(2) in \<open>simp add: takeWhile_append2 list_all_iff\<close>)
  have d: "drop (Suc (length n)) line = between @ CHR '':'' # t"
    by (subst l) simp
  show "dropWhile is_digit line = CHR ''.'' # drop (Suc (length n)) line"
    unfolding d by (subst l) (use n(2) in \<open>simp add: dropWhile_append2 list_all_iff\<close>)
  show "\<exists>t. drop (Suc (length n)) line = between @ CHR '':'' # t \<and> scan_tail t = Some pct"
    using d p scan_tail_iff by blast
qed

lemma line_format_scan:
  assumes "line_format line n' between' pct'"
  shows "\<exists>b pct. scan_line line = Some (n', b, pct) \<and> length b \<le> length between'"
proof -
  from assms have n: "n' \<noteq> []" and b: "between' \<noteq> []" "is_space (hd between')"
    unfolding line_format_def by blast+
  note f = line_format_digits [OF assms]
  from f(3) obtain t where r: "drop (Suc (length n')) line = between' @ CHR '':'' # t"
    and st: "scan_tail t = Some pct'" by blast
  from scan_name_first [OF r st] obtain b0 pct
    where sn: "scan_name (drop (Suc (length n')) line) = Some (b0, pct)"
      and le: "length b0 \<le> length between'" by blast
  have hd: "(case drop (Suc (length n')) line of w # _ \<Rightarrow> is_space w | [] \<Rightarrow> False)"
    unfolding r using b by (cases between') simp_all
  have "scan_line line = Some (n', b0, pct)"
    unfolding scan_line_def Let_def f(1) f(2) using n hd sn by simp
  with le show ?thesis by blast
qed

lemma scan_line_format:
  assumes "scan_line line = Some (n, b, pct)"
  shows "line_format line n b pct"
proof -
  obtain c r where d: "dropWhile is_digit line = c # r"
    using assms unfolding scan_line_def Let_def
    by (cases "dropWhile is_digit line") simp_all
  from assms have ok: "takeWhile is_digit line \<noteq> []" "c = CHR ''.''"
      "(case r of w # _ \<Rightarrow> is_space w | [] \<Rightarrow> False)"
    and sn: "map_option (\<lambda>(b, pct). (takeWhile is_digit line, b, pct)) (scan_name r) = Some (n, b, pct)"
    unfolding scan_line_def Let_def d by (simp_all split: if_splits del: takeWhile_eq_Nil_iff)
  from sn have n: "n = takeWhile is_digit line" and sn': "scan_name r = Some (b, pct)"
    by (auto simp: split_beta)
  from scan_name_decomp [OF sn'] obtain t where r: "r = b @ CHR '':'' # t"
    and st: "scan_tail t = Some pct" by blast
  have l: "line = n @ CHR ''.'' # b @ CHR '':'' # t"
    using takeWhile_dropWhile_id [of is_digit line] unfolding d n ok(2) r by simp
  have dig: "list_all is_digit n"
    unfolding n list_all_iff by (auto dest: set_takeWhileD)
  have b: "b \<noteq> []" "is_space (hd b)"
    using ok(3) unfolding r by (cases b; simp)+
  have n0: "n \<noteq> []" unfolding n by (rule ok(1))
  have pa: "percentage_after t pct" using st unfolding scan_tail_iff .
  from l pa have ex: "\<exists>t. line = n @ CHR ''.'' # b @ CHR '':'' # t \<and> percentage_after t pct"
    by (intro exI [of _ t] conjI)
  show ?thesis
    unfolding line_format_def
    by (intro conjI) (fact n0, fact dig, fact b(1), fact b(2), fact ex)
qed

lemma scan_line_None: "scan_line line = None \<Longrightarrow> \<not> line_format line n b pct"
  using line_format_scan [of line n b pct] by auto

lemma list_all2_concat_filter:
  assumes "\<And>x. x \<in> set xs \<Longrightarrow> (if M x then \<exists>c. f x = [c] \<and> R c x else f x = [])"
  shows "list_all2 R (concat (map f xs)) (filter M xs)"
  using assms
proof (induction xs)
  case Nil
  then show ?case by simp
next
  case (Cons x xs)
  have t: "list_all2 R (concat (map f xs)) (filter M xs)"
    by (rule Cons.IH) (simp add: Cons.prems)
  have h: "if M x then \<exists>c. f x = [c] \<and> R c x else f x = []"
    by (rule Cons.prems) simp
  show ?case
  proof (cases "M x")
    case True
    with h obtain c where "f x = [c]" "R c x" by auto
    with True t show ?thesis by simp
  next
    case False
    with h t show ?thesis by simp
  qed
qed

lemma int_of_digits_nonneg: "list_all is_digit ds \<Longrightarrow> 0 \<le> int_of_digits ds"
proof -
  have "list_all is_digit ds \<Longrightarrow> 0 \<le> acc \<Longrightarrow> 0 \<le> foldl (\<lambda>acc c. 10 * acc + digit_val c) acc ds" for acc
  proof (induction ds arbitrary: acc)
    case Nil
    then show ?case by simp
  next
    case (Cons d ds)
    have "0 \<le> digit_val d" using Cons.prems(1) by (simp add: is_digit_def digit_val_def Let_def)
    then have "0 \<le> 10 * acc + digit_val d" using Cons.prems(2) by simp
    then show ?case using Cons by simp
  qed
  then show "list_all is_digit ds \<Longrightarrow> 0 \<le> int_of_digits ds"
    unfolding int_of_digits_def by simp
qed

lemma line_format_pct_digits: "line_format line n b pct \<Longrightarrow> list_all is_digit n \<and> list_all is_digit pct"
  unfolding line_format_def percentage_after_def by blast

lemma line_format_iff_scan:
  "(\<exists>n between pct. line_format line n between pct) \<longleftrightarrow> scan_line line \<noteq> None"
proof
  assume "\<exists>n between pct. line_format line n between pct"
  then obtain n between pct where "line_format line n between pct" by blast
  from line_format_scan [OF this] show "scan_line line \<noteq> None" by auto
next
  assume "scan_line line \<noteq> None"
  then obtain n b pct where "scan_line line = Some (n, b, pct)" by (cases "scan_line line") auto
  from scan_line_format [OF this] show "\<exists>n between pct. line_format line n between pct" by blast
qed

text \<open>
  C1. For every list of interpretation texts, the candidates that extraction yields
  correspond one to one, and in order, to the lines that have the format
  \<open>"<int>. <text>: <int>%"\<close>; a line without the format yields none. The lines are those
  of each text with its surrounding whitespace removed, as the program splits it. The
  candidate of a line has as position the leading integer \<open>n\<close>, as confidence the integer
  \<open>pct\<close> before the percent sign and as name the text \<open>between\<close> the period and the colon
  with its surrounding whitespace removed, where the colon is the first one of the line
  that is followed by a percentage: of all the ways of reading the line in the format,
  the one with the shortest \<open>between\<close>.
\<close>

theorem extraction_one_candidate_per_matching_line:
  "list_all2
     (\<lambda>cand line. \<exists>n between pct.
         line_format line n between pct
         \<and> (\<forall>n' between' pct'. line_format line n' between' pct' \<longrightarrow> length between \<le> length between')
         \<and> cand = \<lparr>name = strip between, confidence = int_of_digits pct, position = int_of_digits n\<rparr>)
     (extract_medicine_candidates texts)
     (filter (\<lambda>line. \<exists>n between pct. line_format line n between pct)
        (concat (map (\<lambda>t. split_nl (strip t)) texts)))"
  unfolding extract_medicine_candidates_concat
proof (rule list_all2_concat_filter)
  fix line
  assume "line \<in> set (concat (map (\<lambda>t. split_nl (strip t)) texts))"
  then have nl: "CHR 0x0A \<notin> set line"
    using split_nl_no_newline by auto
  let ?M = "\<exists>n between pct. line_format line n between pct"
  let ?R = "\<lambda>cand. \<exists>n between pct.
         line_format line n between pct
         \<and> (\<forall>n' between' pct'. line_format line n' between' pct' \<longrightarrow> length between \<le> length between')
         \<and> cand = \<lparr>name = strip between, confidence = int_of_digits pct, position = int_of_digits n\<rparr>"
  show "if ?M then \<exists>c. extract_line line = [c] \<and> ?R c else extract_line line = []"
  proof (cases "scan_line line")
    case None
    then have "\<not> ?M" using scan_line_None by blast
    moreover have "extract_line line = []"
      unfolding extract_line_scan [OF nl] None by simp
    ultimately show ?thesis by simp
  next
    case (Some nbp)
    obtain n b pct where nbp: "nbp = (n, b, pct)" by (cases nbp)
    from Some nbp have s: "scan_line line = Some (n, b, pct)" by simp
    have f: "line_format line n b pct" by (rule scan_line_format [OF s])
    have mn: "length b \<le> length between'" if "line_format line n' between' pct'" for n' between' pct'
      using line_format_scan [OF that] s by auto
    have e: "extract_line line =
             [\<lparr>name = strip b, confidence = int_of_digits pct, position = int_of_digits n\<rparr>]"
      unfolding extract_line_scan [OF nl] s by simp
    have "?R \<lparr>name = strip b, confidence = int_of_digits pct, position = int_of_digits n\<rparr>"
      using f mn by blast
    with e f show ?thesis by auto
  qed
qed

theorem extraction_one_candidate_per_matching_line_witness:
  "list_all2
     (\<lambda>cand line. \<exists>n between pct.
         line_format line n between pct
         \<and> (\<forall>n' between' pct'. line_format line n' between' pct' \<longrightarrow> length between \<le> length between')
         \<and> cand = \<lparr>name = strip between, confidence = int_of_digits pct, position = int_of_digits n\<rparr>)
     (extract_medicine_candidates
        [''1. Napa: 95%\<newline>Take after meals: 2 times\<newline>2. Seclo : 80%'', ''  3. Ace: 500mg:7% sure\<newline>''])
     [''1. Napa: 95%'', ''2. Seclo : 80%'', ''3. Ace: 500mg:7% sure'']
   \<and> extract_medicine_candidates
        [''1. Napa: 95%\<newline>Take after meals: 2 times\<newline>2. Seclo : 80%'', ''  3. Ace: 500mg:7% sure\<newline>'']
     = [\<lparr>name = ''Napa'', confidence = 95, position = 1\<rparr>,
        \<lparr>name = ''Seclo'', confidence = 80, position = 2\<rparr>,
        \<lparr>name = ''Ace: 500mg'', confidence = 7, position = 3\<rparr>]"
proof -
  let ?T = "[''1. Napa: 95%\<newline>Take after meals: 2 times\<newline>2. Seclo : 80%'', ''  3. Ace: 500mg:7% sure\<newline>'']"
  have ls: "concat (map (\<lambda>t. split_nl (strip t)) ?T) =
            [''1. Napa: 95%'', ''Take after meals: 2 times'', ''2. Seclo : 80%'', ''3. Ace: 500mg:7% sure'']"
    by code_simp
  have m1: "scan_line ''1. Napa: 95%'' \<noteq> None" by code_simp
  have m2: "\<not> scan_line ''Take after meals: 2 times'' \<noteq> None" by code_simp
  have m3: "scan_line ''2. Seclo : 80%'' \<noteq> None" by code_simp
  have m4: "scan_line ''3. Ace: 500mg:7% sure'' \<noteq> None" by code_simp
  have fl: "filter (\<lambda>line. \<exists>n between pct. line_format line n between pct)
              (concat (map (\<lambda>t. split_nl (strip t)) ?T))
            = [''1. Napa: 95%'', ''2. Seclo : 80%'', ''3. Ace: 500mg:7% sure'']"
    unfolding ls line_format_iff_scan
    by (simp only: filter.simps m1 m2 m3 m4 if_True if_False not_False_eq_True)
  have a: "list_all2
     (\<lambda>cand line. \<exists>n between pct.
         line_format line n between pct
         \<and> (\<forall>n' between' pct'. line_format line n' between' pct' \<longrightarrow> length between \<le> length between')
         \<and> cand = \<lparr>name = strip between, confidence = int_of_digits pct, position = int_of_digits n\<rparr>)
     (extract_medicine_candidates ?T)
     [''1. Napa: 95%'', ''2. Seclo : 80%'', ''3. Ace: 500mg:7% sure'']"
    using extraction_one_candidate_per_matching_line [of ?T] unfolding fl .
  have b: "extract_medicine_candidates ?T
     = [\<lparr>name = ''Napa'', confidence = 95, position = 1\<rparr>,
        \<lparr>name = ''Seclo'', confidence = 80, position = 2\<rparr>,
        \<lparr>name = ''Ace: 500mg'', confidence = 7, position = 3\<rparr>]"
    by code_simp
  from a b show ?thesis by (rule conjI)
qed

text \<open>
  C7 (as amended). Every candidate that extraction produces has a confidence and a
  position that are non-negative integers, and a name with no whitespace at either end.
  The confidence has no upper bound: it is the integer written before the percent sign,
  whatever its value, so a line \<open>"1. Napa: 150%"\<close> gives a candidate of confidence 150.
\<close>

theorem extracted_candidates_nonnegative:
  "\<forall>c \<in> set (extract_medicine_candidates texts).
     0 \<le> confidence c \<and> 0 \<le> position c \<and> name c = strip (name c)"
proof
  fix c
  assume "c \<in> set (extract_medicine_candidates texts)"
  then obtain line where l: "line \<in> set (concat (map (\<lambda>t. split_nl (strip t)) texts))"
    and c: "c \<in> set (extract_line line)"
    unfolding extract_medicine_candidates_concat by auto
  from l have nl: "CHR 0x0A \<notin> set line" using split_nl_no_newline by auto
  from c obtain n b pct where s: "scan_line line = Some (n, b, pct)"
    and c': "c = \<lparr>name = strip b, confidence = int_of_digits pct, position = int_of_digits n\<rparr>"
    unfolding extract_line_scan [OF nl] by (cases "scan_line line") auto
  from line_format_pct_digits [OF scan_line_format [OF s]]
  have "0 \<le> int_of_digits n" "0 \<le> int_of_digits pct"
    using int_of_digits_nonneg by blast+
  moreover have "strip (strip b) = strip b"
  proof -
    have r: "dropWhile is_space (rev (dropWhile is_space (rev xs))) = rev (dropWhile is_space (rev xs))"
      if "xs = [] \<or> \<not> is_space (hd xs)" for xs
    proof (cases "dropWhile is_space (rev xs)")
      case Nil
      show ?thesis unfolding Nil by simp
    next
      case (Cons y ys)
      then have ne: "xs \<noteq> []" by auto
      with that have h: "\<not> is_space (hd xs)" by simp
      have "\<exists>zs. rev xs = zs @ dropWhile is_space (rev xs)"
        by (metis takeWhile_dropWhile_id)
      then obtain zs where "rev xs = zs @ y # ys" unfolding Cons by blast
      then have "xs = rev ys @ y # rev zs" by (metis rev_append rev_rev_ident rev.simps(2) append.assoc append_Cons append_Nil)
      then have "hd (rev ys @ [y]) = hd xs" by (cases "rev ys") simp_all
      then have "\<not> is_space (hd (rev (dropWhile is_space (rev xs))))"
        unfolding Cons using h by simp
      then show ?thesis
        unfolding Cons by (cases "rev (y # ys)") simp_all
    qed
    have "dropWhile is_space b = [] \<or> \<not> is_space (hd (dropWhile is_space b))"
      using hd_dropWhile [of is_space b] by blast
    from r [OF this] show ?thesis
      by (simp add: strip_def lstrip_def rstrip_def)
  qed
  ultimately show "0 \<le> confidence c \<and> 0 \<le> position c \<and> name c = strip (name c)"
    unfolding c' by simp
qed

theorem extracted_candidates_nonnegative_witness:
  "\<lparr>name = ''Napa'', confidence = 95, position = 1\<rparr>
     \<in> set (extract_medicine_candidates [''1. Napa: 95%''])
   \<and> 0 \<le> confidence \<lparr>name = ''Napa'', confidence = 95, position = 1\<rparr>
   \<and> 0 \<le> position \<lparr>name = ''Napa'', confidence = 95, position = 1\<rparr>
   \<and> name \<lparr>name = ''Napa'', confidence = 95, position = 1\<rparr>
     = strip (name \<lparr>name = ''Napa'', confidence = 95, position = 1\<rparr>)"
proof -
  have e: "extract_medicine_candidates [''1. Napa: 95%''] = [\<lparr>name = ''Napa'', confidence = 95, position = 1\<rparr>]"
    by code_simp
  have mem: "\<lparr>name = ''Napa'', confidence = 95, position = 1\<rparr>
     \<in> set (extract_medicine_candidates [''1. Napa: 95%''])"
    unfolding e by simp
  note t = extracted_candidates_nonnegative [of "[''1. Napa: 95%'']", THEN bspec, OF mem]
  show ?thesis
    by (intro conjI)
       (fact mem, fact t [THEN conjunct1], fact t [THEN conjunct2, THEN conjunct1],
        fact t [THEN conjunct2, THEN conjunct2])
qed

theorem confidence_above_100_counterexample:
  "extract_medicine_candidates [''1. Napa: 150%'']
     = [\<lparr>name = ''Napa'', confidence = 150, position = 1\<rparr>]
   \<and> \<not> confidence \<lparr>name = ''Napa'', confidence = 150, position = 1\<rparr> \<le> 100"
proof -
  have e: "extract_medicine_candidates [''1. Napa: 150%'']
     = [\<lparr>name = ''Napa'', confidence = 150, position = 1\<rparr>]"
    by code_simp
  then show ?thesis by simp
qed

end
